theory Spec2Isabelle
  imports Main "HOL-Library.AList" "HOL-Library.Multiset" "HOL-Library.Sublist"
begin

section \<open>Attribute values of the plugin framework\<close>

text \<open>
  \<open>types.String\<close> and \<open>types.Bool\<close> are framework values with a state (null, unknown,
  known) and, when known, a Go value. The accessors below are the framework's:
  \<open>ValueString\<close> is the empty string and \<open>ValueBool\<close> is false for a null or unknown
  value; \<open>ValueStringPointer\<close> is nil for null and points to the empty string for
  unknown; \<open>Equal\<close> compares the state and then the value.
\<close>

datatype tf_String = StringNull | StringUnknown | StringValue string

datatype tf_Bool = BoolNull | BoolUnknown | BoolValue bool

fun ValueString :: "tf_String \<Rightarrow> string" where
  "ValueString (StringValue s) = s"
| "ValueString StringNull = ''''"
| "ValueString StringUnknown = ''''"

fun ValueStringPointer :: "tf_String \<Rightarrow> string option" where
  "ValueStringPointer StringNull = None"
| "ValueStringPointer StringUnknown = Some ''''"
| "ValueStringPointer (StringValue s) = Some s"

fun ValueBool :: "tf_Bool \<Rightarrow> bool" where
  "ValueBool (BoolValue b) = b"
| "ValueBool BoolNull = False"
| "ValueBool BoolUnknown = False"

datatype ValueState = ValueStateNull | ValueStateUnknown | ValueStateKnown

fun state_of :: "tf_String \<Rightarrow> ValueState" where
  "state_of StringNull = ValueStateNull"
| "state_of StringUnknown = ValueStateUnknown"
| "state_of (StringValue s) = ValueStateKnown"

definition Equal :: "tf_String \<Rightarrow> tf_String \<Rightarrow> bool" where
  "Equal s other =
     (if state_of s \<noteq> state_of other then False
      else if state_of s \<noteq> ValueStateKnown then True
      else ValueString s = ValueString other)"

section \<open>Data model\<close>

text \<open>
  \<open>MetafieldDefinitionValidationModel\<close> and \<open>MetaobjectFieldDefinitionModel\<close> are the
  structs of the provider. A snapshot is a Go slice of pointers to field definition
  models; an entry is modelled here by the struct it points to, and slices that hold nil
  are the subject of a later section. \<open>Validations\<close> is a slice that may be nil
  (\<open>None\<close>) or hold elements (\<open>Some\<close>, possibly of no element): the two are different
  values for \<open>reflect.DeepEqual\<close>.
\<close>

record MetafieldDefinitionValidationModel =
  vm_Name :: tf_String
  vm_Value :: tf_String

record MetaobjectFieldDefinitionModel =
  Key :: tf_String
  Name :: tf_String
  Description :: tf_String
  Type :: tf_String
  Required :: tf_Bool
  Validations :: "MetafieldDefinitionValidationModel list option"

text \<open>
  The inputs of the remote API client (package \<open>shopify\<close>), with the fields the provider
  fills. An operation input holds exactly one of a create, an update or a delete input.
\<close>

record MetafieldDefinitionValidation =
  v_Name :: string
  v_Value :: string

record MetaobjectFieldDefinitionCreateInput =
  c_Key :: string
  c_Name :: "string option"
  c_Description :: "string option"
  c_Type :: string
  c_Required :: bool
  c_Validations :: "MetafieldDefinitionValidation list"

record MetaobjectFieldDefinitionUpdateInput =
  u_Key :: string
  u_Name :: "string option"
  u_Description :: "string option"
  u_Required :: bool
  u_Validations :: "MetafieldDefinitionValidation list"

record MetaobjectFieldDefinitionDeleteInput =
  d_Key :: string

datatype MetaobjectFieldDefinitionOperationInput =
    Create MetaobjectFieldDefinitionCreateInput
  | Update MetaobjectFieldDefinitionUpdateInput
  | Delete MetaobjectFieldDefinitionDeleteInput

text \<open>The key an operation acts on.\<close>

fun op_Key :: "MetaobjectFieldDefinitionOperationInput \<Rightarrow> string" where
  "op_Key (Create c) = c_Key c"
| "op_Key (Update u) = u_Key u"
| "op_Key (Delete d) = d_Key d"

text \<open>\<open>fieldDefinition.Key.ValueString()\<close>, the key a field definition is indexed by.\<close>

definition keyOf :: "MetaobjectFieldDefinitionModel \<Rightarrow> string" where
  "keyOf fieldDefinition = ValueString (Key fieldDefinition)"

text \<open>
  \<open>reflect.DeepEqual\<close> on two pointers to field definition models compares the structs
  field by field, following the slice of validations: structural equality.
\<close>

definition DeepEqual :: "MetaobjectFieldDefinitionModel \<Rightarrow> MetaobjectFieldDefinitionModel \<Rightarrow> bool" where
  "DeepEqual x y \<longleftrightarrow> x = y"

definition convertValidationModelsToValidations ::
    "MetafieldDefinitionValidationModel list option \<Rightarrow> MetafieldDefinitionValidation list" where
  "convertValidationModelsToValidations validationModels =
     map (\<lambda>model. \<lparr>v_Name = ValueString (vm_Name model), v_Value = ValueString (vm_Value model)\<rparr>)
       (case validationModels of None \<Rightarrow> [] | Some models \<Rightarrow> models)"

definition convertValidationsToModels ::
    "MetafieldDefinitionValidation list \<Rightarrow> MetafieldDefinitionValidationModel list option" where
  "convertValidationsToModels validations =
     (if length validations = 0 then None
      else Some (map (\<lambda>validation. \<lparr>vm_Name = StringValue (v_Name validation),
                                      vm_Value = StringValue (v_Value validation)\<rparr>) validations))"

definition convertMetaobjectFieldDefinitionModelToCreateInput ::
    "MetaobjectFieldDefinitionModel \<Rightarrow> MetaobjectFieldDefinitionCreateInput" where
  "convertMetaobjectFieldDefinitionModelToCreateInput model =
     \<lparr>c_Key = ValueString (Key model),
      c_Name = ValueStringPointer (Name model),
      c_Description = ValueStringPointer (Description model),
      c_Type = ValueString (Type model),
      c_Required = ValueBool (Required model),
      c_Validations = convertValidationModelsToValidations (Validations model)\<rparr>"

section \<open>The field operations of Update\<close>

text \<open>
  The Go map \<open>oldFieldDefinitionMap\<close> is an association list with one entry per key:
  \<open>map_of\<close> looks a key up, \<open>AList.update\<close> stores and \<open>AList.delete\<close> removes. The order
  of the association list means nothing; iterating a Go map visits every entry once in
  an order the language leaves open, which \<open>map_range\<close> states.
\<close>

type_synonym field_map = "(string \<times> MetaobjectFieldDefinitionModel) list"

datatype log_level = Trace | Warn

record update_state =
  oldFieldDefinitionMap :: field_map
  fieldDefinitions1stReq :: "MetaobjectFieldDefinitionOperationInput list"
  fieldDefinitions2ndReq :: "MetaobjectFieldDefinitionOperationInput list"
  recreateFieldDefinitions :: "string list"
  tflog :: "(log_level \<times> string) list"

text \<open>Filling the map from the prior snapshot: a later entry replaces an earlier one of its key.\<close>

fun Update_index :: "MetaobjectFieldDefinitionModel list \<Rightarrow> field_map \<Rightarrow> field_map" where
  "Update_index [] m = m"
| "Update_index (fieldDefinition # rest) m =
     Update_index rest (AList.update (keyOf fieldDefinition) fieldDefinition m)"

text \<open>The body of the loop over the desired snapshot.\<close>

definition Update_diff :: "update_state \<Rightarrow> MetaobjectFieldDefinitionModel \<Rightarrow> update_state" where
  "Update_diff st newFieldDef =
     (case map_of (oldFieldDefinitionMap st) (keyOf newFieldDef) of
        Some oldFieldDef \<Rightarrow>
          (let st' = st\<lparr>oldFieldDefinitionMap :=
                          AList.delete (keyOf newFieldDef) (oldFieldDefinitionMap st)\<rparr>
           in if DeepEqual oldFieldDef newFieldDef then st'
              else if \<not> Equal (Type newFieldDef) (Type oldFieldDef) then
                st'\<lparr>fieldDefinitions1stReq := fieldDefinitions1stReq st' @
                       [Delete \<lparr>d_Key = ValueString (Key oldFieldDef)\<rparr>],
                    fieldDefinitions2ndReq := fieldDefinitions2ndReq st' @
                       [Create (convertMetaobjectFieldDefinitionModelToCreateInput newFieldDef)],
                    recreateFieldDefinitions := recreateFieldDefinitions st' @
                       [ValueString (Key newFieldDef)]\<rparr>
              else
                st'\<lparr>fieldDefinitions1stReq := fieldDefinitions1stReq st' @
                       [Update \<lparr>u_Key = ValueString (Key newFieldDef),
                                u_Name = ValueStringPointer (Name newFieldDef),
                                u_Description = ValueStringPointer (Description newFieldDef),
                                u_Required = ValueBool (Required newFieldDef),
                                u_Validations =
                                  convertValidationModelsToValidations (Validations newFieldDef)\<rparr>]\<rparr>)
      | None \<Rightarrow>
          st\<lparr>fieldDefinitions1stReq := fieldDefinitions1stReq st @
                 [Create (convertMetaobjectFieldDefinitionModelToCreateInput newFieldDef)]\<rparr>)"

fun Update_diff_loop :: "MetaobjectFieldDefinitionModel list \<Rightarrow> update_state \<Rightarrow> update_state" where
  "Update_diff_loop [] st = st"
| "Update_diff_loop (newFieldDef # rest) st = Update_diff_loop rest (Update_diff st newFieldDef)"

text \<open>The notice after the loop: a warning whose message is the empty string.\<close>

definition Update_warn :: "update_state \<Rightarrow> update_state" where
  "Update_warn st =
     (if length (recreateFieldDefinitions st) > 0 then st\<lparr>tflog := tflog st @ [(Warn, '''')]\<rparr>
      else st)"

text \<open>
  The loop over what is left of the map, given the entries in the order the iteration
  visits them.
\<close>

fun Update_removed :: "MetaobjectFieldDefinitionModel list \<Rightarrow> update_state \<Rightarrow> update_state" where
  "Update_removed [] st = st"
| "Update_removed (oldFieldDef # rest) st =
     Update_removed rest
       (st\<lparr>fieldDefinitions1stReq := fieldDefinitions1stReq st @
              [Delete \<lparr>d_Key = ValueString (Key oldFieldDef)\<rparr>]\<rparr>)"

definition map_range :: "field_map \<Rightarrow> MetaobjectFieldDefinitionModel list \<Rightarrow> bool" where
  "map_range m visited \<longleftrightarrow> mset visited = mset (map snd m)"

text \<open>The state before the last loop, from the prior and the desired snapshot.\<close>

definition Update_diffed ::
    "MetaobjectFieldDefinitionModel list \<Rightarrow> MetaobjectFieldDefinitionModel list \<Rightarrow> update_state" where
  "Update_diffed oldFieldDefinitions fieldDefinitions =
     Update_warn (Update_diff_loop fieldDefinitions
       \<lparr>oldFieldDefinitionMap = Update_index oldFieldDefinitions [],
        fieldDefinitions1stReq = [],
        fieldDefinitions2ndReq = [],
        recreateFieldDefinitions = [],
        tflog = []\<rparr>)"

text \<open>
  \<open>Update_fields prior desired st\<close>: the field operations of Update on the two
  snapshots can end in \<open>st\<close>.
\<close>

definition Update_fields ::
    "MetaobjectFieldDefinitionModel list \<Rightarrow> MetaobjectFieldDefinitionModel list \<Rightarrow> update_state \<Rightarrow> bool" where
  "Update_fields oldFieldDefinitions fieldDefinitions st \<longleftrightarrow>
     (\<exists>visited.
        map_range (oldFieldDefinitionMap (Update_diffed oldFieldDefinitions fieldDefinitions)) visited \<and>
        st = Update_removed visited (Update_diffed oldFieldDefinitions fieldDefinitions))"

section \<open>Rebuilding the field definitions from the remote definition\<close>

text \<open>
  \<open>shopify.MetaobjectFieldDefinition\<close> is the field definition the remote API returns;
  \<open>r_Type_Name\<close> is its \<open>Type.Name\<close>.
\<close>

record MetaobjectFieldDefinition =
  r_Key :: string
  r_Name :: string
  r_Description :: string
  r_Type_Name :: string
  r_Required :: bool
  r_Validations :: "MetafieldDefinitionValidation list"

definition convertMetaobjectFieldDefinitionToModel ::
    "MetaobjectFieldDefinition \<Rightarrow> MetaobjectFieldDefinitionModel option \<Rightarrow> MetaobjectFieldDefinitionModel" where
  "convertMetaobjectFieldDefinitionToModel fieldDef model =
     \<lparr>Key = StringValue (r_Key fieldDef),
      Name = StringValue (r_Name fieldDef),
      Description =
        (if r_Description fieldDef = '''' \<and>
            (case model of None \<Rightarrow> False | Some m \<Rightarrow> Description m = StringNull)
         then StringNull else StringValue (r_Description fieldDef)),
      Type = StringValue (r_Type_Name fieldDef),
      Required = BoolValue (r_Required fieldDef),
      Validations = convertValidationsToModels (r_Validations fieldDef)\<rparr>"

text \<open>
  The map from a key to the index of its entry in the planned field definitions; a later
  entry replaces an earlier one of its key.
\<close>

fun fieldDefinitionOrderMap ::
    "MetaobjectFieldDefinitionModel list \<Rightarrow> nat \<Rightarrow> (string \<times> nat) list \<Rightarrow> (string \<times> nat) list" where
  "fieldDefinitionOrderMap [] i m = m"
| "fieldDefinitionOrderMap (fieldDefinition # rest) i m =
     fieldDefinitionOrderMap rest (i + 1) (AList.update (keyOf fieldDefinition) i m)"

text \<open>Reading a Go map of integers: a key that is absent reads as zero.\<close>

definition order_at :: "(string \<times> nat) list \<Rightarrow> string \<Rightarrow> nat" where
  "order_at m k = (case map_of m k of Some i \<Rightarrow> i | None \<Rightarrow> 0)"

text \<open>The comparison handed to \<open>sort.Slice\<close>.\<close>

definition order_less ::
    "MetaobjectFieldDefinitionModel list \<Rightarrow> MetaobjectFieldDefinitionModel \<Rightarrow> MetaobjectFieldDefinitionModel \<Rightarrow> bool" where
  "order_less fieldDefinitions x y \<longleftrightarrow>
     order_at (fieldDefinitionOrderMap fieldDefinitions 0 []) (keyOf x) <
     order_at (fieldDefinitionOrderMap fieldDefinitions 0 []) (keyOf y)"

text \<open>
  \<open>sort.Slice\<close> of the Go library is not stable. What it promises, for a comparison that
  orders the elements by a rank as this one does, is a rearrangement of the slice in
  which no element is less than an element before it.
\<close>

definition sort_Slice :: "('a \<Rightarrow> 'a \<Rightarrow> bool) \<Rightarrow> 'a list \<Rightarrow> 'a list \<Rightarrow> bool" where
  "sort_Slice less_fn xs ys \<longleftrightarrow> mset ys = mset xs \<and> sorted_wrt (\<lambda>x y. \<not> less_fn y x) ys"

text \<open>
  The loop that converts every remote field definition. \<open>xslice.FindBy\<close> is a helper of
  package \<open>xslice\<close>; it is the parameter \<open>FindBy\<close>, and \<open>None\<close> is the nil it hands back
  when it finds nothing.
\<close>

definition convert_fieldDefinitions ::
    "(MetaobjectFieldDefinitionModel list \<Rightarrow> (MetaobjectFieldDefinitionModel \<Rightarrow> bool) \<Rightarrow> MetaobjectFieldDefinitionModel option) \<Rightarrow>
     MetaobjectFieldDefinition list \<Rightarrow> MetaobjectFieldDefinitionModel list \<Rightarrow> MetaobjectFieldDefinitionModel list" where
  "convert_fieldDefinitions FindBy definitions fieldDefinitions =
     map (\<lambda>fieldDefinition.
            convertMetaobjectFieldDefinitionToModel fieldDefinition
              (FindBy fieldDefinitions (\<lambda>v. keyOf v = r_Key fieldDefinition)))
       definitions"

text \<open>
  \<open>sorted_fieldDefinitions FindBy definitions fieldDefinitions fieldDefinitionModels\<close>:
  the converted and sorted list can be \<open>fieldDefinitionModels\<close>.
\<close>

definition sorted_fieldDefinitions ::
    "(MetaobjectFieldDefinitionModel list \<Rightarrow> (MetaobjectFieldDefinitionModel \<Rightarrow> bool) \<Rightarrow> MetaobjectFieldDefinitionModel option) \<Rightarrow>
     MetaobjectFieldDefinition list \<Rightarrow> MetaobjectFieldDefinitionModel list \<Rightarrow> MetaobjectFieldDefinitionModel list \<Rightarrow> bool" where
  "sorted_fieldDefinitions FindBy definitions fieldDefinitions fieldDefinitionModels \<longleftrightarrow>
     sort_Slice (order_less fieldDefinitions)
       (convert_fieldDefinitions FindBy definitions fieldDefinitions) fieldDefinitionModels"

section \<open>The field operations on slices of pointers\<close>

text \<open>
  In Go a snapshot is a slice of pointers and \<open>Validations\<close> is a slice of pointers: either
  may hold nil, and reading a field through nil panics. This section writes the same
  code over pointers, a pointer being \<open>None\<close> for nil, with the panic as a result. The map
  holds the structs of pointers that were read when they were stored, so it holds no nil.
\<close>

datatype panic = NilPointerDereference

record MetaobjectFieldDefinitionModel_go =
  go_Key :: tf_String
  go_Name :: tf_String
  go_Description :: tf_String
  go_Type :: tf_String
  go_Required :: tf_Bool
  go_Validations :: "MetafieldDefinitionValidationModel option list option"

type_synonym go_field_map = "(string \<times> MetaobjectFieldDefinitionModel_go) list"

type_synonym go_state =
  "go_field_map \<times> MetaobjectFieldDefinitionOperationInput list \<times>
   MetaobjectFieldDefinitionOperationInput list \<times> string list \<times> (log_level \<times> string) list"

definition DeepEqual_go ::
    "MetaobjectFieldDefinitionModel_go \<Rightarrow> MetaobjectFieldDefinitionModel_go \<Rightarrow> bool" where
  "DeepEqual_go x y \<longleftrightarrow> x = y"

text \<open>The loop of \<open>convertValidationModelsToValidations\<close>: reading \<open>model.Name\<close> panics on nil.\<close>

fun convertValidationModels_go ::
    "MetafieldDefinitionValidationModel option list \<Rightarrow> MetafieldDefinitionValidation list \<Rightarrow>
     panic + MetafieldDefinitionValidation list" where
  "convertValidationModels_go [] validations = Inr validations"
| "convertValidationModels_go (None # rest) validations = Inl NilPointerDereference"
| "convertValidationModels_go (Some model # rest) validations =
     convertValidationModels_go rest
       (validations @ [\<lparr>v_Name = ValueString (vm_Name model), v_Value = ValueString (vm_Value model)\<rparr>])"

definition convertValidationModelsToValidations_go ::
    "MetafieldDefinitionValidationModel option list option \<Rightarrow> panic + MetafieldDefinitionValidation list" where
  "convertValidationModelsToValidations_go validationModels =
     convertValidationModels_go (case validationModels of None \<Rightarrow> [] | Some models \<Rightarrow> models) []"

definition convertMetaobjectFieldDefinitionModelToCreateInput_go ::
    "MetaobjectFieldDefinitionModel_go \<Rightarrow> panic + MetaobjectFieldDefinitionCreateInput" where
  "convertMetaobjectFieldDefinitionModelToCreateInput_go model =
     (case convertValidationModelsToValidations_go (go_Validations model) of
        Inl p \<Rightarrow> Inl p
      | Inr validations \<Rightarrow>
          Inr \<lparr>c_Key = ValueString (go_Key model),
               c_Name = ValueStringPointer (go_Name model),
               c_Description = ValueStringPointer (go_Description model),
               c_Type = ValueString (go_Type model),
               c_Required = ValueBool (go_Required model),
               c_Validations = validations\<rparr>)"

text \<open>Filling the map: reading \<open>fieldDefinition.Key\<close> panics on a nil entry.\<close>

fun Update_index_go ::
    "MetaobjectFieldDefinitionModel_go option list \<Rightarrow> go_field_map \<Rightarrow> panic + go_field_map" where
  "Update_index_go [] m = Inr m"
| "Update_index_go (None # rest) m = Inl NilPointerDereference"
| "Update_index_go (Some fieldDefinition # rest) m =
     Update_index_go rest (AList.update (ValueString (go_Key fieldDefinition)) fieldDefinition m)"

text \<open>
  The body of the loop over the desired snapshot: reading \<open>newFieldDef.Key\<close> panics on a
  nil entry, and building a create or an update input panics on a nil validation.
\<close>

fun Update_diff_go :: "go_state \<Rightarrow> MetaobjectFieldDefinitionModel_go option \<Rightarrow> panic + go_state" where
  "Update_diff_go st None = Inl NilPointerDereference"
| "Update_diff_go (m, req1, req2, recreate, logged) (Some newFieldDef) =
     (case map_of m (ValueString (go_Key newFieldDef)) of
        Some oldFieldDef \<Rightarrow>
          (let m' = AList.delete (ValueString (go_Key newFieldDef)) m
           in if DeepEqual_go oldFieldDef newFieldDef then Inr (m', req1, req2, recreate, logged)
              else if \<not> Equal (go_Type newFieldDef) (go_Type oldFieldDef) then
                (case convertMetaobjectFieldDefinitionModelToCreateInput_go newFieldDef of
                   Inl p \<Rightarrow> Inl p
                 | Inr created \<Rightarrow>
                     Inr (m',
                          req1 @ [Delete \<lparr>d_Key = ValueString (go_Key oldFieldDef)\<rparr>],
                          req2 @ [Create created],
                          recreate @ [ValueString (go_Key newFieldDef)],
                          logged))
              else
                (case convertValidationModelsToValidations_go (go_Validations newFieldDef) of
                   Inl p \<Rightarrow> Inl p
                 | Inr validations \<Rightarrow>
                     Inr (m',
                          req1 @ [Update \<lparr>u_Key = ValueString (go_Key newFieldDef),
                                          u_Name = ValueStringPointer (go_Name newFieldDef),
                                          u_Description = ValueStringPointer (go_Description newFieldDef),
                                          u_Required = ValueBool (go_Required newFieldDef),
                                          u_Validations = validations\<rparr>],
                          req2, recreate, logged)))
      | None \<Rightarrow>
          (case convertMetaobjectFieldDefinitionModelToCreateInput_go newFieldDef of
             Inl p \<Rightarrow> Inl p
           | Inr created \<Rightarrow> Inr (m, req1 @ [Create created], req2, recreate, logged)))"

fun Update_diff_loop_go ::
    "MetaobjectFieldDefinitionModel_go option list \<Rightarrow> go_state \<Rightarrow> panic + go_state" where
  "Update_diff_loop_go [] st = Inr st"
| "Update_diff_loop_go (newFieldDef # rest) st =
     (case Update_diff_go st newFieldDef of
        Inl p \<Rightarrow> Inl p
      | Inr st' \<Rightarrow> Update_diff_loop_go rest st')"

fun Update_warn_go :: "go_state \<Rightarrow> go_state" where
  "Update_warn_go (m, req1, req2, recreate, logged) =
     (if length recreate > 0 then (m, req1, req2, recreate, logged @ [(Warn, '''')])
      else (m, req1, req2, recreate, logged))"

fun Update_removed_go :: "MetaobjectFieldDefinitionModel_go list \<Rightarrow> go_state \<Rightarrow> go_state" where
  "Update_removed_go [] st = st"
| "Update_removed_go (oldFieldDef # rest) (m, req1, req2, recreate, logged) =
     Update_removed_go rest
       (m, req1 @ [Delete \<lparr>d_Key = ValueString (go_Key oldFieldDef)\<rparr>], req2, recreate, logged)"

definition map_range_go :: "go_field_map \<Rightarrow> MetaobjectFieldDefinitionModel_go list \<Rightarrow> bool" where
  "map_range_go m visited \<longleftrightarrow> mset visited = mset (map snd m)"

definition Update_diffed_go ::
    "MetaobjectFieldDefinitionModel_go option list \<Rightarrow> MetaobjectFieldDefinitionModel_go option list \<Rightarrow>
     panic + go_state" where
  "Update_diffed_go oldFieldDefinitions fieldDefinitions =
     (case Update_index_go oldFieldDefinitions [] of
        Inl p \<Rightarrow> Inl p
      | Inr m \<Rightarrow>
          (case Update_diff_loop_go fieldDefinitions (m, [], [], [], []) of
             Inl p \<Rightarrow> Inl p
           | Inr st \<Rightarrow> Inr (Update_warn_go st)))"

text \<open>
  \<open>Update_fields_go prior desired r\<close>: the field operations of Update on the two slices
  can end in \<open>r\<close>, a panic or the final state (the map, the first request, the second
  request, the keys to recreate, the log).
\<close>

definition Update_fields_go ::
    "MetaobjectFieldDefinitionModel_go option list \<Rightarrow> MetaobjectFieldDefinitionModel_go option list \<Rightarrow>
     panic + go_state \<Rightarrow> bool" where
  "Update_fields_go oldFieldDefinitions fieldDefinitions r \<longleftrightarrow>
     (case Update_diffed_go oldFieldDefinitions fieldDefinitions of
        Inl p \<Rightarrow> r = Inl p
      | Inr st \<Rightarrow> (\<exists>visited. map_range_go (fst st) visited \<and> r = Inr (Update_removed_go visited st)))"

text \<open>
  A slice without nil: every entry points to a struct whose validations hold no nil.
  \<open>struct_of\<close> is the struct of the earlier sections for such an entry.
\<close>

definition no_nil_validation :: "MetaobjectFieldDefinitionModel_go \<Rightarrow> bool" where
  "no_nil_validation model \<longleftrightarrow>
     (case go_Validations model of None \<Rightarrow> True | Some models \<Rightarrow> list_all (\<lambda>v. v \<noteq> None) models)"

definition nil_free :: "MetaobjectFieldDefinitionModel_go option list \<Rightarrow> bool" where
  "nil_free fieldDefinitions \<longleftrightarrow>
     list_all (\<lambda>e. case e of None \<Rightarrow> False | Some model \<Rightarrow> no_nil_validation model) fieldDefinitions"

definition struct_of :: "MetaobjectFieldDefinitionModel_go \<Rightarrow> MetaobjectFieldDefinitionModel" where
  "struct_of model =
     \<lparr>Key = go_Key model, Name = go_Name model, Description = go_Description model,
      Type = go_Type model, Required = go_Required model,
      Validations = map_option (List.map_filter (\<lambda>v. v)) (go_Validations model)\<rparr>"

definition structs_of ::
    "MetaobjectFieldDefinitionModel_go option list \<Rightarrow> MetaobjectFieldDefinitionModel list" where
  "structs_of fieldDefinitions = map struct_of (List.map_filter (\<lambda>e. e) fieldDefinitions)"

definition state_of_go :: "go_state \<Rightarrow> update_state" where
  "state_of_go st =
     (case st of (m, req1, req2, recreate, logged) \<Rightarrow>
        \<lparr>oldFieldDefinitionMap = map (\<lambda>e. (fst e, struct_of (snd e))) m,
         fieldDefinitions1stReq = req1,
         fieldDefinitions2ndReq = req2,
         recreateFieldDefinitions = recreate,
         tflog = logged\<rparr>)"


section \<open>What one iteration appends\<close>

text \<open>
  The body of the loop appends at most one operation to each batch, decided by the entry
  the map holds for the key (\<open>None\<close> when it holds none). The three functions below give
  what is appended; \<open>lookups\<close> lists the entry each iteration finds, the map losing a
  key once it was looked up; \<open>left_over\<close> is the map after the loop.
\<close>

fun emit_1st :: "MetaobjectFieldDefinitionModel option \<Rightarrow> MetaobjectFieldDefinitionModel \<Rightarrow> MetaobjectFieldDefinitionOperationInput list" where
  "emit_1st None newFieldDef = [Create (convertMetaobjectFieldDefinitionModelToCreateInput newFieldDef)]"
| "emit_1st (Some oldFieldDef) newFieldDef =
     (if oldFieldDef = newFieldDef then []
      else if Type newFieldDef \<noteq> Type oldFieldDef then [Delete \<lparr>d_Key = keyOf oldFieldDef\<rparr>]
      else [Update \<lparr>u_Key = keyOf newFieldDef,
                                u_Name = ValueStringPointer (Name newFieldDef),
                                u_Description = ValueStringPointer (Description newFieldDef),
                                u_Required = ValueBool (Required newFieldDef),
                                u_Validations =
                                  convertValidationModelsToValidations (Validations newFieldDef)\<rparr>])"

fun emit_2nd :: "MetaobjectFieldDefinitionModel option \<Rightarrow> MetaobjectFieldDefinitionModel \<Rightarrow> MetaobjectFieldDefinitionOperationInput list" where
  "emit_2nd None newFieldDef = []"
| "emit_2nd (Some oldFieldDef) newFieldDef =
     (if oldFieldDef \<noteq> newFieldDef \<and> Type newFieldDef \<noteq> Type oldFieldDef
      then [Create (convertMetaobjectFieldDefinitionModelToCreateInput newFieldDef)] else [])"

fun emit_recreate :: "MetaobjectFieldDefinitionModel option \<Rightarrow> MetaobjectFieldDefinitionModel \<Rightarrow> string list" where
  "emit_recreate None newFieldDef = []"
| "emit_recreate (Some oldFieldDef) newFieldDef =
     (if oldFieldDef \<noteq> newFieldDef \<and> Type newFieldDef \<noteq> Type oldFieldDef
      then [keyOf newFieldDef] else [])"

fun lookups :: "field_map \<Rightarrow> MetaobjectFieldDefinitionModel list \<Rightarrow> (MetaobjectFieldDefinitionModel option \<times> MetaobjectFieldDefinitionModel) list" where
  "lookups m [] = []"
| "lookups m (d # ds) = (map_of m (keyOf d), d) # lookups (AList.delete (keyOf d) m) ds"

definition left_over :: "MetaobjectFieldDefinitionModel list \<Rightarrow> MetaobjectFieldDefinitionModel list \<Rightarrow> field_map" where
  "left_over prior desired = filter (\<lambda>e. fst e \<notin> keyOf ` set desired) (Update_index prior [])"

section \<open>Example snapshots\<close>

definition field :: "string \<Rightarrow> string \<Rightarrow> string \<Rightarrow> MetaobjectFieldDefinitionModel" where
  "field key name type =
     \<lparr>Key = StringValue key, Name = StringValue name, Description = StringNull,
      Type = StringValue type, Required = BoolValue False, Validations = None\<rparr>"

definition remote_field :: "string \<Rightarrow> string \<Rightarrow> string \<Rightarrow> MetaobjectFieldDefinition" where
  "remote_field key name type =
     \<lparr>r_Key = key, r_Name = name, r_Description = '''', r_Type_Name = type,
      r_Required = False, r_Validations = []\<rparr>"

definition create_of :: "string \<Rightarrow> string \<Rightarrow> string \<Rightarrow> MetaobjectFieldDefinitionOperationInput" where
  "create_of key name type =
     Create \<lparr>c_Key = key, c_Name = Some name, c_Description = None, c_Type = type,
             c_Required = False, c_Validations = []\<rparr>"

definition update_of :: "string \<Rightarrow> string \<Rightarrow> MetaobjectFieldDefinitionOperationInput" where
  "update_of key name =
     Update \<lparr>u_Key = key, u_Name = Some name, u_Description = None,
             u_Required = False, u_Validations = []\<rparr>"

definition delete_of :: "string \<Rightarrow> MetaobjectFieldDefinitionOperationInput" where
  "delete_of key = Delete \<lparr>d_Key = key\<rparr>"

definition final_state ::
    "field_map \<Rightarrow> MetaobjectFieldDefinitionOperationInput list \<Rightarrow>
     MetaobjectFieldDefinitionOperationInput list \<Rightarrow> string list \<Rightarrow> (log_level \<times> string) list \<Rightarrow>
     update_state" where
  "final_state m req1 req2 recreate logged =
     \<lparr>oldFieldDefinitionMap = m, fieldDefinitions1stReq = req1, fieldDefinitions2ndReq = req2,
      recreateFieldDefinitions = recreate, tflog = logged\<rparr>"

lemmas run_simps = Update_fields_def Update_diffed_def Update_warn_def Update_diff_def map_range_def
  keyOf_def DeepEqual_def Equal_def convertMetaobjectFieldDefinitionModelToCreateInput_def
  convertValidationModelsToValidations_def field_def create_of_def update_of_def delete_of_def
  final_state_def

section \<open>The loops, as what they append\<close>

lemma Equal_iff: "Equal a b \<longleftrightarrow> a = b"
  by (cases a; cases b) (simp_all add: Equal_def)

lemma delete_absent: "map_of m k = None \<Longrightarrow> AList.delete k m = m"
  by (simp add: map_of_eq_None_iff)

lemma Update_diff_eq:
  "Update_diff st d =
     st\<lparr>oldFieldDefinitionMap := AList.delete (keyOf d) (oldFieldDefinitionMap st),
        fieldDefinitions1stReq := fieldDefinitions1stReq st @ emit_1st (map_of (oldFieldDefinitionMap st) (keyOf d)) d,
        fieldDefinitions2ndReq := fieldDefinitions2ndReq st @ emit_2nd (map_of (oldFieldDefinitionMap st) (keyOf d)) d,
        recreateFieldDefinitions := recreateFieldDefinitions st @ emit_recreate (map_of (oldFieldDefinitionMap st) (keyOf d)) d\<rparr>"
  by (cases "map_of (oldFieldDefinitionMap st) (keyOf d)")
     (simp_all add: Update_diff_def Let_def DeepEqual_def Equal_iff delete_absent keyOf_def)

lemma loop_map:
  "oldFieldDefinitionMap (Update_diff_loop ds st) =
     filter (\<lambda>e. fst e \<notin> keyOf ` set ds) (oldFieldDefinitionMap st)"
proof (induction ds arbitrary: st)
  case Nil
  show ?case by simp
next
  case (Cons d ds)
  show ?case
    by (simp add: Cons.IH Update_diff_eq AList.delete_eq case_prod_unfold conj_commute) (metis)
qed

lemma loop_1st:
  "fieldDefinitions1stReq (Update_diff_loop ds st) =
     fieldDefinitions1stReq st @
       concat (map (\<lambda>(old, d). emit_1st old d) (lookups (oldFieldDefinitionMap st) ds))"
  by (induction ds arbitrary: st) (simp_all add: Update_diff_eq)

lemma loop_2nd:
  "fieldDefinitions2ndReq (Update_diff_loop ds st) =
     fieldDefinitions2ndReq st @
       concat (map (\<lambda>(old, d). emit_2nd old d) (lookups (oldFieldDefinitionMap st) ds))"
  by (induction ds arbitrary: st) (simp_all add: Update_diff_eq)

lemma loop_recreate:
  "recreateFieldDefinitions (Update_diff_loop ds st) =
     recreateFieldDefinitions st @
       concat (map (\<lambda>(old, d). emit_recreate old d) (lookups (oldFieldDefinitionMap st) ds))"
  by (induction ds arbitrary: st) (simp_all add: Update_diff_eq)

lemma loop_tflog: "tflog (Update_diff_loop ds st) = tflog st"
  by (induction ds arbitrary: st) (simp_all add: Update_diff_eq)

lemma removed_eq:
  "Update_removed vs st =
     st\<lparr>fieldDefinitions1stReq := fieldDefinitions1stReq st @ map (\<lambda>p. Delete \<lparr>d_Key = keyOf p\<rparr>) vs\<rparr>"
  by (induction vs arbitrary: st) (simp_all add: keyOf_def)

lemma distinct_keyOf_Cons:
  "x \<in> set ds \<Longrightarrow> distinct (map keyOf (d # ds)) \<Longrightarrow> keyOf x \<noteq> keyOf d"
  by (auto simp: image_iff)

lemma lookups_distinct:
  "distinct (map keyOf ds) \<Longrightarrow> lookups m ds = map (\<lambda>d. (map_of m (keyOf d), d)) ds"
proof (induction ds arbitrary: m)
  case Nil
  show ?case by simp
next
  case (Cons d ds)
  have "map_of (AList.delete (keyOf d) m) (keyOf x) = map_of m (keyOf x)" if "x \<in> set ds" for x
  proof -
    from that Cons.prems have "keyOf x \<noteq> keyOf d" by (rule distinct_keyOf_Cons)
    then show ?thesis by simp
  qed
  with Cons show ?case by simp
qed

lemma index_keys: "fst ` set (Update_index ps m) = fst ` set m \<union> keyOf ` set ps"
  by (induction ps arbitrary: m) (auto simp: AList.dom_update)

text \<open>The association list holds one entry per key, as the Go map does.\<close>

lemma index_one_entry_per_key:
  "distinct (map fst m) \<Longrightarrow> distinct (map fst (Update_index ps m))"
  by (induction ps arbitrary: m) (simp_all add: AList.distinct_update)

lemma update_fresh: "k \<notin> fst ` set m \<Longrightarrow> AList.update k v m = m @ [(k, v)]"
  by (induction m) auto

lemma index_fresh:
  "distinct (map keyOf ps) \<Longrightarrow> keyOf ` set ps \<inter> fst ` set m = {} \<Longrightarrow>
   Update_index ps m = m @ map (\<lambda>p. (keyOf p, p)) ps"
proof (induction ps arbitrary: m)
  case Nil
  show ?case by simp
next
  case (Cons p ps)
  have fresh: "keyOf p \<notin> fst ` set m" using Cons.prems(2) by auto
  have "keyOf ` set ps \<inter> fst ` set (m @ [(keyOf p, p)]) = {}"
    using Cons.prems by auto
  with Cons show ?case by (simp add: update_fresh [OF fresh])
qed

lemma index_keyed:
  "\<forall>e \<in> set m. keyOf (snd e) = fst e \<Longrightarrow> \<forall>e \<in> set (Update_index ps m). keyOf (snd e) = fst e"
proof (induction ps arbitrary: m)
  case Nil
  then show ?case by simp
next
  case (Cons p ps)
  have "\<forall>e \<in> set (AList.update (keyOf p) p m). keyOf (snd e) = fst e"
    using Cons.prems by (induction m) auto
  then show ?case using Cons.IH by simp
qed

lemma diffed_map: "oldFieldDefinitionMap (Update_diffed prior desired) = left_over prior desired"
  by (simp add: Update_diffed_def Update_warn_def loop_map left_over_def)

lemma diffed_1st:
  "fieldDefinitions1stReq (Update_diffed prior desired) =
     concat (map (\<lambda>(old, d). emit_1st old d) (lookups (Update_index prior []) desired))"
  by (simp add: Update_diffed_def Update_warn_def loop_1st)

lemma diffed_2nd:
  "fieldDefinitions2ndReq (Update_diffed prior desired) =
     concat (map (\<lambda>(old, d). emit_2nd old d) (lookups (Update_index prior []) desired))"
  by (simp add: Update_diffed_def Update_warn_def loop_2nd)

lemma diffed_recreate:
  "recreateFieldDefinitions (Update_diffed prior desired) =
     concat (map (\<lambda>(old, d). emit_recreate old d) (lookups (Update_index prior []) desired))"
  by (simp add: Update_diffed_def Update_warn_def loop_recreate)

lemma diffed_tflog:
  "tflog (Update_diffed prior desired) =
     (if recreateFieldDefinitions (Update_diffed prior desired) = [] then [] else [(Warn, [])])"
  by (simp add: Update_diffed_def Update_warn_def loop_tflog)

lemma Update_fields_iff:
  "Update_fields prior desired st \<longleftrightarrow>
     (\<exists>visited. mset visited = mset (map snd (left_over prior desired)) \<and>
        st = (Update_diffed prior desired)
               \<lparr>fieldDefinitions1stReq := fieldDefinitions1stReq (Update_diffed prior desired) @
                  map (\<lambda>p. Delete \<lparr>d_Key = keyOf p\<rparr>) visited\<rparr>)"
  by (simp add: Update_fields_def map_range_def removed_eq diffed_map)

lemma Update_fieldsE:
  assumes "Update_fields prior desired st"
  obtains visited where
    "mset visited = mset (map snd (left_over prior desired))"
    "fieldDefinitions1stReq st =
       fieldDefinitions1stReq (Update_diffed prior desired) @ map (\<lambda>p. Delete \<lparr>d_Key = keyOf p\<rparr>) visited"
    "fieldDefinitions2ndReq st = fieldDefinitions2ndReq (Update_diffed prior desired)"
    "recreateFieldDefinitions st = recreateFieldDefinitions (Update_diffed prior desired)"
    "tflog st = tflog (Update_diffed prior desired)"
  using assms unfolding Update_fields_iff by auto

lemma lookups_empty: "lookups [] ds = map (\<lambda>d. (None, d)) ds"
  by (induction ds) simp_all

lemma emit_pairs:
  "list_all2 (\<lambda>op k. \<exists>c. op = Create c \<and> c_Key c = k)
     (concat (map (\<lambda>(old, d). emit_2nd old d) T)) (concat (map (\<lambda>(old, d). emit_recreate old d) T))"
proof (induction T)
  case Nil
  show ?case by simp
next
  case (Cons a T)
  obtain old d where a: "a = (old, d)" by (cases a)
  show ?case using Cons.IH
    by (cases old) (simp_all add: a convertMetaobjectFieldDefinitionModelToCreateInput_def keyOf_def)
qed

lemma index_of_distinct:
  "distinct (map keyOf prior) \<Longrightarrow> Update_index prior [] = map (\<lambda>p. (keyOf p, p)) prior"
  using index_fresh [of prior "[]"] by simp

lemma index_lookup:
  assumes "distinct (map keyOf prior)" "p \<in> set prior"
  shows "map_of (Update_index prior []) (keyOf p) = Some p"
proof -
  have "distinct (map fst (map (\<lambda>p. (keyOf p, p)) prior))"
    using assms(1) by (simp add: comp_def)
  moreover have "(keyOf p, p) \<in> set (map (\<lambda>p. (keyOf p, p)) prior)"
    using assms(2) by auto
  ultimately show ?thesis
    unfolding index_of_distinct [OF assms(1)] by (rule map_of_is_SomeI)
qed

lemma index_lookup_keyed:
  assumes "map_of (Update_index prior []) k = Some p"
  shows "keyOf p = k"
proof -
  have "\<forall>e \<in> set (Update_index prior []). keyOf (snd e) = fst e"
    by (rule index_keyed) simp
  moreover from assms have "(k, p) \<in> set (Update_index prior [])" by (rule map_of_SomeD)
  ultimately show ?thesis by force
qed

lemma left_over_keys:
  assumes "v \<in> snd ` set (left_over prior desired)"
  shows "keyOf v \<notin> keyOf ` set desired" and "keyOf v \<in> keyOf ` set prior"
proof -
  from assms obtain e where e: "e \<in> set (Update_index prior [])" "fst e \<notin> keyOf ` set desired" "v = snd e"
    by (auto simp: left_over_def)
  have "\<forall>e \<in> set (Update_index prior []). keyOf (snd e) = fst e"
    by (rule index_keyed) simp
  with e have k: "keyOf v = fst e" by simp
  from e k show "keyOf v \<notin> keyOf ` set desired" by simp
  from e(1) have "fst e \<in> fst ` set (Update_index prior [])" by simp
  then show "keyOf v \<in> keyOf ` set prior" using k by (simp add: index_keys)
qed

lemma emit_1st_key:
  assumes "op \<in> set (emit_1st (map_of (Update_index prior []) (keyOf d)) d)"
  shows "op_Key op = keyOf d"
proof (cases "map_of (Update_index prior []) (keyOf d)")
  case None
  with assms show ?thesis
    by (simp add: convertMetaobjectFieldDefinitionModelToCreateInput_def keyOf_def)
next
  case (Some p)
  then have "keyOf p = keyOf d" by (rule index_lookup_keyed)
  with assms Some show ?thesis by (auto split: if_splits)
qed

lemma emit_2nd_key:
  assumes "op \<in> set (emit_2nd old d)"
  shows "op_Key op = keyOf d"
  using assms
  by (cases old) (auto simp: convertMetaobjectFieldDefinitionModelToCreateInput_def keyOf_def split: if_splits)


lemma filter_concat_key:
  assumes "distinct (map keyOf ds)" "d \<in> set ds"
    and "\<And>x y. x \<in> set ds \<Longrightarrow> y \<in> set (f x) \<Longrightarrow> kf y = keyOf x"
  shows "filter (\<lambda>y. kf y = keyOf d) (concat (map f ds)) = f d"
  using assms
proof (induction ds)
  case Nil
  then show ?case by simp
next
  case (Cons x ds)
  have own: "filter (\<lambda>y. kf y = keyOf x) (f x) = f x"
    using Cons.prems(3) [of x] by (simp add: filter_id_conv)
  show ?case
  proof (cases "d = x")
    case True
    have "filter (\<lambda>y. kf y = keyOf x) (concat (map f ds)) = []"
    proof -
      have "kf y \<noteq> keyOf x" if "y \<in> set (concat (map f ds))" for y
      proof -
        from that obtain z where z: "z \<in> set ds" "y \<in> set (f z)" by auto
        then have "kf y = keyOf z" using Cons.prems(3) by simp
        moreover have "keyOf z \<noteq> keyOf x" using z(1) Cons.prems(1) by (rule distinct_keyOf_Cons)
        ultimately show ?thesis by simp
      qed
      then show ?thesis by (simp add: filter_empty_conv)
    qed
    with own True show ?thesis by simp
  next
    case False
    with Cons.prems have d: "d \<in> set ds" by simp
    have "keyOf d \<noteq> keyOf x" using d Cons.prems(1) by (rule distinct_keyOf_Cons)
    then have "filter (\<lambda>y. kf y = keyOf d) (f x) = []"
      using Cons.prems(3) [of x] by (simp add: filter_empty_conv)
    moreover have "filter (\<lambda>y. kf y = keyOf d) (concat (map f ds)) = f d"
      using Cons.prems d by (intro Cons.IH) simp_all
    ultimately show ?thesis by simp
  qed
qed

lemma removed_other_keys:
  assumes "mset visited = mset (map snd (left_over prior desired))" "d \<in> set desired"
  shows "filter (\<lambda>op. op_Key op = keyOf d) (map (\<lambda>p. Delete \<lparr>d_Key = keyOf p\<rparr>) visited) = []"
proof -
  have "keyOf v \<noteq> keyOf d" if "v \<in> set visited" for v
  proof -
    from assms(1) have "set visited = set (map snd (left_over prior desired))" by (rule mset_eq_setD)
    with that have "v \<in> snd ` set (left_over prior desired)" by simp
    then have "keyOf v \<notin> keyOf ` set desired" by (rule left_over_keys)
    with assms(2) show ?thesis by auto
  qed
  then show ?thesis by (simp add: filter_empty_conv)
qed

lemma on_key_1st:
  assumes "distinct (map keyOf desired)" "d \<in> set desired" "Update_fields prior desired st"
  shows "filter (\<lambda>op. op_Key op = keyOf d) (fieldDefinitions1stReq st) =
           emit_1st (map_of (Update_index prior []) (keyOf d)) d"
proof -
  from assms(3) obtain visited where
    v: "mset visited = mset (map snd (left_over prior desired))" and
    p: "fieldDefinitions1stReq st =
       fieldDefinitions1stReq (Update_diffed prior desired) @ map (\<lambda>p. Delete \<lparr>d_Key = keyOf p\<rparr>) visited"
    by (rule Update_fieldsE)
  have "filter (\<lambda>op. op_Key op = keyOf d)
          (concat (map (\<lambda>d. emit_1st (map_of (Update_index prior []) (keyOf d)) d) desired)) =
        emit_1st (map_of (Update_index prior []) (keyOf d)) d"
    using assms(1,2) by (rule filter_concat_key) (rule emit_1st_key)
  then show ?thesis
    unfolding p diffed_1st
    by (simp add: lookups_distinct [OF assms(1)] comp_def removed_other_keys [OF v assms(2)])
qed

lemma on_key_2nd:
  assumes "distinct (map keyOf desired)" "d \<in> set desired" "Update_fields prior desired st"
  shows "filter (\<lambda>op. op_Key op = keyOf d) (fieldDefinitions2ndReq st) =
           emit_2nd (map_of (Update_index prior []) (keyOf d)) d"
proof -
  from assms(3) obtain visited where
    s: "fieldDefinitions2ndReq st = fieldDefinitions2ndReq (Update_diffed prior desired)"
    by (rule Update_fieldsE)
  have "filter (\<lambda>op. op_Key op = keyOf d)
          (concat (map (\<lambda>d. emit_2nd (map_of (Update_index prior []) (keyOf d)) d) desired)) =
        emit_2nd (map_of (Update_index prior []) (keyOf d)) d"
    using assms(1,2) by (rule filter_concat_key) (rule emit_2nd_key)
  then show ?thesis
    unfolding s diffed_2nd by (simp add: lookups_distinct [OF assms(1)] comp_def)
qed


lemma delete_keyed:
  "\<forall>e \<in> set m. keyOf (snd e) = fst e \<Longrightarrow> \<forall>e \<in> set (AList.delete k m). keyOf (snd e) = fst e"
  by (simp add: AList.delete_eq)

lemma emit_1st_keys:
  assumes "\<forall>e \<in> set m. keyOf (snd e) = fst e"
  shows "map op_Key (emit_1st (map_of m (keyOf d)) d) = [] \<or>
         map op_Key (emit_1st (map_of m (keyOf d)) d) = [keyOf d]"
proof (cases "map_of m (keyOf d)")
  case None
  then show ?thesis
    by (simp add: convertMetaobjectFieldDefinitionModelToCreateInput_def keyOf_def)
next
  case (Some p)
  then have "(keyOf d, p) \<in> set m" by (rule map_of_SomeD)
  with assms have "keyOf p = keyOf d" by force
  with Some show ?thesis by simp
qed

lemma emit_2nd_keys:
  "map op_Key (emit_2nd old d) = [] \<or> map op_Key (emit_2nd old d) = [keyOf d]"
  by (cases old) (simp_all add: convertMetaobjectFieldDefinitionModelToCreateInput_def keyOf_def)

lemma emitted_1st_subseq:
  "\<forall>e \<in> set m. keyOf (snd e) = fst e \<Longrightarrow>
   subseq (map op_Key (concat (map (\<lambda>(old, d). emit_1st old d) (lookups m ds)))) (map keyOf ds)"
proof (induction ds arbitrary: m)
  case Nil
  show ?case by simp
next
  case (Cons d ds)
  have rest: "subseq (map op_Key (concat (map (\<lambda>(old, d). emit_1st old d)
                 (lookups (AList.delete (keyOf d) m) ds)))) (map keyOf ds)"
    using Cons.prems by (intro Cons.IH delete_keyed)
  from emit_1st_keys [OF Cons.prems, of d] show ?case
  proof
    assume "map op_Key (emit_1st (map_of m (keyOf d)) d) = []"
    with rest show ?thesis by (simp add: list_emb_Cons)
  next
    assume "map op_Key (emit_1st (map_of m (keyOf d)) d) = [keyOf d]"
    with rest show ?thesis by simp
  qed
qed

lemma emitted_2nd_subseq:
  "subseq (map op_Key (concat (map (\<lambda>(old, d). emit_2nd old d) (lookups m ds)))) (map keyOf ds)"
proof (induction ds arbitrary: m)
  case Nil
  show ?case by simp
next
  case (Cons d ds)
  from emit_2nd_keys [of "map_of m (keyOf d)" d] show ?case
  proof
    assume "map op_Key (emit_2nd (map_of m (keyOf d)) d) = []"
    with Cons.IH [of "AList.delete (keyOf d) m"] show ?thesis by (simp add: list_emb_Cons)
  next
    assume "map op_Key (emit_2nd (map_of m (keyOf d)) d) = [keyOf d]"
    with Cons.IH [of "AList.delete (keyOf d) m"] show ?thesis by simp
  qed
qed

lemma Update_fields_determined:
  assumes "Update_fields prior desired st" "Update_fields prior desired st'"
  shows "fieldDefinitions2ndReq st' = fieldDefinitions2ndReq st \<and>
         recreateFieldDefinitions st' = recreateFieldDefinitions st \<and>
         tflog st' = tflog st \<and>
         mset (fieldDefinitions1stReq st') = mset (fieldDefinitions1stReq st)"
proof -
  from assms(1) obtain visited where
    v: "mset visited = mset (map snd (left_over prior desired))" and
    p: "fieldDefinitions1stReq st =
       fieldDefinitions1stReq (Update_diffed prior desired) @ map (\<lambda>p. Delete \<lparr>d_Key = keyOf p\<rparr>) visited" and
    s: "fieldDefinitions2ndReq st = fieldDefinitions2ndReq (Update_diffed prior desired)"
       "recreateFieldDefinitions st = recreateFieldDefinitions (Update_diffed prior desired)"
       "tflog st = tflog (Update_diffed prior desired)"
    by (rule Update_fieldsE)
  from assms(2) obtain visited' where
    v': "mset visited' = mset (map snd (left_over prior desired))" and
    p': "fieldDefinitions1stReq st' =
       fieldDefinitions1stReq (Update_diffed prior desired) @ map (\<lambda>p. Delete \<lparr>d_Key = keyOf p\<rparr>) visited'" and
    s': "fieldDefinitions2ndReq st' = fieldDefinitions2ndReq (Update_diffed prior desired)"
       "recreateFieldDefinitions st' = recreateFieldDefinitions (Update_diffed prior desired)"
       "tflog st' = tflog (Update_diffed prior desired)"
    by (rule Update_fieldsE)
  from v v' have "mset (map (\<lambda>p. Delete \<lparr>d_Key = keyOf p\<rparr>) visited') =
                  mset (map (\<lambda>p. Delete \<lparr>d_Key = keyOf p\<rparr>) visited)"
    by (metis mset_map)
  with s s' show ?thesis unfolding p p' by simp
qed

section \<open>The order map\<close>

lemma order_map_other:
  "k \<notin> keyOf ` set ds \<Longrightarrow> map_of (fieldDefinitionOrderMap ds i m) k = map_of m k"
  by (induction ds i m rule: fieldDefinitionOrderMap.induct) (simp_all add: AList.update_conv')

lemma order_map_nth:
  "distinct (map keyOf ds) \<Longrightarrow> a < length ds \<Longrightarrow>
   map_of (fieldDefinitionOrderMap ds i m) (keyOf (ds ! a)) = Some (i + a)"
proof (induction ds i m arbitrary: a rule: fieldDefinitionOrderMap.induct)
  case (1 i m)
  then show ?case by simp
next
  case (2 d rest i m)
  show ?case
  proof (cases a)
    case 0
    from "2.prems" have "keyOf d \<notin> keyOf ` set rest" by simp
    then show ?thesis using 0 by (simp add: order_map_other AList.update_conv')
  next
    case (Suc b)
    with "2.prems" have "map_of (fieldDefinitionOrderMap rest (i + 1) (AList.update (keyOf d) i m))
        (keyOf (rest ! b)) = Some (i + 1 + b)"
      by (intro "2.IH") simp_all
    with Suc show ?thesis by simp
  qed
qed

lemma order_at_nth:
  "distinct (map keyOf ds) \<Longrightarrow> a < length ds \<Longrightarrow>
   order_at (fieldDefinitionOrderMap ds 0 []) (keyOf (ds ! a)) = a"
  by (simp add: order_at_def order_map_nth)

lemma convert_keys:
  "map keyOf (convert_fieldDefinitions FindBy definitions fieldDefinitions) = map r_Key definitions"
  by (simp add: convert_fieldDefinitions_def convertMetaobjectFieldDefinitionToModel_def keyOf_def comp_def)

section \<open>Slices without nil run as their structs\<close>

text \<open>
  On slices that hold no nil, the code over pointers does not panic and its final state
  is, read as structs, a final state of the field operations of the earlier sections.
\<close>

lemma convertValidationModels_go_no_nil:
  "list_all (\<lambda>v. v \<noteq> None) models \<Longrightarrow>
   convertValidationModels_go models validations =
     Inr (validations @
          map (\<lambda>model. \<lparr>v_Name = ValueString (vm_Name model), v_Value = ValueString (vm_Value model)\<rparr>)
            (List.map_filter (\<lambda>v. v) models))"
proof (induction models arbitrary: validations)
  case Nil
  show ?case by (simp add: List.map_filter_simps)
next
  case (Cons v models)
  then obtain model where "v = Some model" by auto
  with Cons show ?case by (simp add: List.map_filter_simps)
qed

lemma convertValidationModelsToValidations_go_no_nil:
  "no_nil_validation model \<Longrightarrow>
   convertValidationModelsToValidations_go (go_Validations model) =
     Inr (convertValidationModelsToValidations (Validations (struct_of model)))"
  by (cases "go_Validations model")
     (simp_all add: no_nil_validation_def convertValidationModelsToValidations_go_def
        convertValidationModelsToValidations_def struct_of_def convertValidationModels_go_no_nil)

lemma convertCreateInput_go_no_nil:
  "no_nil_validation model \<Longrightarrow>
   convertMetaobjectFieldDefinitionModelToCreateInput_go model =
     Inr (convertMetaobjectFieldDefinitionModelToCreateInput (struct_of model))"
  by (simp add: convertMetaobjectFieldDefinitionModelToCreateInput_go_def
      convertValidationModelsToValidations_go_no_nil
      convertMetaobjectFieldDefinitionModelToCreateInput_def)
     (simp add: struct_of_def)

lemma map_filter_no_nil: "list_all (\<lambda>v. v \<noteq> None) vs \<Longrightarrow> map Some (List.map_filter (\<lambda>v. v) vs) = vs"
  by (induction vs) (auto simp: List.map_filter_simps)

lemma struct_of_inject:
  assumes "no_nil_validation x" "no_nil_validation y" "struct_of x = struct_of y"
  shows "x = y"
proof (rule MetaobjectFieldDefinitionModel_go.equality)
  from assms(3) have "Key (struct_of x) = Key (struct_of y)" by (rule arg_cong)
  then show "go_Key x = go_Key y" by (simp add: struct_of_def)
  from assms(3) have "Name (struct_of x) = Name (struct_of y)" by (rule arg_cong)
  then show "go_Name x = go_Name y" by (simp add: struct_of_def)
  from assms(3) have "Description (struct_of x) = Description (struct_of y)" by (rule arg_cong)
  then show "go_Description x = go_Description y" by (simp add: struct_of_def)
  from assms(3) have "Type (struct_of x) = Type (struct_of y)" by (rule arg_cong)
  then show "go_Type x = go_Type y" by (simp add: struct_of_def)
  from assms(3) have "Required (struct_of x) = Required (struct_of y)" by (rule arg_cong)
  then show "go_Required x = go_Required y" by (simp add: struct_of_def)
  from assms(3) have "Validations (struct_of x) = Validations (struct_of y)" by (rule arg_cong)
  then have vs: "map_option (List.map_filter (\<lambda>v. v)) (go_Validations x) =
             map_option (List.map_filter (\<lambda>v. v)) (go_Validations y)"
    by (simp add: struct_of_def)
  show "go_Validations x = go_Validations y"
  proof (cases "go_Validations x")
    case None
    with vs show ?thesis by simp
  next
    case (Some xs)
    with vs obtain ys where ys: "go_Validations y = Some ys"
      and same: "List.map_filter (\<lambda>v. v) xs = List.map_filter (\<lambda>v. v) ys"
      by (cases "go_Validations y") simp_all
    from assms(1) Some have "list_all (\<lambda>v. v \<noteq> None) xs" by (simp add: no_nil_validation_def)
    then have "xs = map Some (List.map_filter (\<lambda>v. v) xs)" by (simp only: map_filter_no_nil)
    also have "\<dots> = map Some (List.map_filter (\<lambda>v. v) ys)" by (simp only: same)
    also have "\<dots> = ys"
    proof -
      from assms(2) ys have "list_all (\<lambda>v. v \<noteq> None) ys" by (simp add: no_nil_validation_def)
      then show ?thesis by (rule map_filter_no_nil)
    qed
    finally show ?thesis using Some ys by simp
  qed
  show "MetaobjectFieldDefinitionModel_go.more x = MetaobjectFieldDefinitionModel_go.more y" by simp
qed

lemma keyOf_struct_of: "keyOf (struct_of model) = ValueString (go_Key model)"
  by (simp add: keyOf_def struct_of_def)

lemma structs_update:
  "map (\<lambda>e. (fst e, struct_of (snd e))) (AList.update k v m) =
   AList.update k (struct_of v) (map (\<lambda>e. (fst e, struct_of (snd e))) m)"
  by (induction m) auto

lemma structs_delete:
  "map (\<lambda>e. (fst e, struct_of (snd e))) (AList.delete k m) =
   AList.delete k (map (\<lambda>e. (fst e, struct_of (snd e))) m)"
  by (induction m) auto

lemma structs_lookup:
  "map_of (map (\<lambda>e. (fst e, struct_of (snd e))) m) k = map_option struct_of (map_of m k)"
  by (induction m) auto

lemma update_values:
  "\<forall>e \<in> set m. P (snd e) \<Longrightarrow> P v \<Longrightarrow> \<forall>e \<in> set (AList.update k v m). P (snd e)"
  by (induction m) auto

lemma delete_values:
  "\<forall>e \<in> set m. P (snd e) \<Longrightarrow> \<forall>e \<in> set (AList.delete k m). P (snd e)"
  by (simp add: AList.delete_eq)

lemma Update_index_go_nil_free:
  "nil_free es \<Longrightarrow> \<forall>e \<in> set m. no_nil_validation (snd e) \<Longrightarrow>
   \<exists>m'. Update_index_go es m = Inr m' \<and>
        map (\<lambda>e. (fst e, struct_of (snd e))) m' =
          Update_index (structs_of es) (map (\<lambda>e. (fst e, struct_of (snd e))) m) \<and>
        (\<forall>e \<in> set m'. no_nil_validation (snd e))"
proof (induction es arbitrary: m)
  case Nil
  then show ?case by (simp add: structs_of_def List.map_filter_simps)
next
  case (Cons e es)
  from Cons.prems(1) obtain f where f: "e = Some f" "no_nil_validation f" and rest: "nil_free es"
    by (cases e) (auto simp: nil_free_def)
  have "\<forall>x \<in> set (AList.update (ValueString (go_Key f)) f m). no_nil_validation (snd x)"
    using Cons.prems(2) f(2) by (rule update_values)
  from Cons.IH [OF rest this] obtain m' where
    run: "Update_index_go es (AList.update (ValueString (go_Key f)) f m) = Inr m'" and
    same: "map (\<lambda>e. (fst e, struct_of (snd e))) m' =
          Update_index (structs_of es)
            (map (\<lambda>e. (fst e, struct_of (snd e))) (AList.update (ValueString (go_Key f)) f m))" and
    vals: "\<forall>e \<in> set m'. no_nil_validation (snd e)"
    by blast
  have structs: "structs_of (e # es) = struct_of f # structs_of es"
    by (simp add: f(1) structs_of_def List.map_filter_simps)
  have "Update_index_go (e # es) m = Inr m'"
    using run by (simp add: f(1))
  moreover have "map (\<lambda>e. (fst e, struct_of (snd e))) m' =
      Update_index (structs_of (e # es)) (map (\<lambda>e. (fst e, struct_of (snd e))) m)"
    unfolding structs same by (simp only: Update_index.simps structs_update keyOf_struct_of)
  ultimately show ?case using vals by blast
qed

lemma Update_diff_go_no_nil:
  assumes "no_nil_validation f" and "\<forall>e \<in> set m. no_nil_validation (snd e)"
  shows "\<exists>st'. Update_diff_go (m, req1, req2, recreate, logged) (Some f) = Inr st' \<and>
           state_of_go st' = Update_diff (state_of_go (m, req1, req2, recreate, logged)) (struct_of f) \<and>
           (\<forall>e \<in> set (fst st'). no_nil_validation (snd e))"
proof (cases "map_of m (ValueString (go_Key f))")
  case None
  then show ?thesis
    using assms
    by (simp add: convertCreateInput_go_no_nil state_of_go_def Update_diff_def structs_lookup
        keyOf_struct_of)
next
  case (Some old)
  then have "(ValueString (go_Key f), old) \<in> set m" by (rule map_of_SomeD)
  with assms(2) have old: "no_nil_validation old" by force
  have eq: "struct_of old = struct_of f \<longleftrightarrow> old = f"
    using struct_of_inject [OF old assms(1)] by auto
  have rest: "\<forall>e \<in> set (AList.delete (ValueString (go_Key f)) m). no_nil_validation (snd e)"
    using assms(2) by (rule delete_values)
  have types: "Type (struct_of f) = go_Type f" "Type (struct_of old) = go_Type old"
    "Key (struct_of f) = go_Key f" "Key (struct_of old) = go_Key old"
    "Name (struct_of f) = go_Name f" "Description (struct_of f) = go_Description f"
    "Required (struct_of f) = go_Required f"
    by (simp_all add: struct_of_def)
  show ?thesis
  proof (cases "old = f")
    case True
    with Some rest show ?thesis
      by (simp add: DeepEqual_go_def state_of_go_def Update_diff_def structs_lookup
          keyOf_struct_of DeepEqual_def structs_delete)
  next
    case False
    show ?thesis
    proof (cases "Equal (go_Type f) (go_Type old)")
      case True
      with False Some rest eq show ?thesis
        by (simp add: DeepEqual_go_def state_of_go_def Update_diff_def structs_lookup
            keyOf_struct_of DeepEqual_def structs_delete types
            convertValidationModelsToValidations_go_no_nil [OF assms(1)])
    next
      case noteq: False
      with False Some rest eq show ?thesis
        by (simp add: DeepEqual_go_def state_of_go_def Update_diff_def structs_lookup
            keyOf_struct_of DeepEqual_def structs_delete types
            convertCreateInput_go_no_nil [OF assms(1)])
    qed
  qed
qed

lemma Update_diff_loop_go_nil_free:
  "nil_free es \<Longrightarrow> \<forall>e \<in> set (fst st). no_nil_validation (snd e) \<Longrightarrow>
   \<exists>st'. Update_diff_loop_go es st = Inr st' \<and>
         state_of_go st' = Update_diff_loop (structs_of es) (state_of_go st) \<and>
         (\<forall>e \<in> set (fst st'). no_nil_validation (snd e))"
proof (induction es arbitrary: st)
  case Nil
  then show ?case by (simp add: structs_of_def List.map_filter_simps)
next
  case (Cons e es)
  from Cons.prems(1) obtain f where f: "e = Some f" "no_nil_validation f" and rest: "nil_free es"
    by (cases e) (auto simp: nil_free_def)
  obtain m req1 req2 recreate logged where st: "st = (m, req1, req2, recreate, logged)"
    by (cases st)
  from Cons.prems(2) have "\<forall>e \<in> set m. no_nil_validation (snd e)" by (simp add: st)
  from Update_diff_go_no_nil [OF f(2) this, of req1 req2 recreate logged] obtain st1 where
    step: "Update_diff_go st (Some f) = Inr st1" and
    same: "state_of_go st1 = Update_diff (state_of_go st) (struct_of f)" and
    vals: "\<forall>e \<in> set (fst st1). no_nil_validation (snd e)"
    unfolding st by blast
  from Cons.IH [OF rest vals] obtain st' where
    run: "Update_diff_loop_go es st1 = Inr st'" and
    same': "state_of_go st' = Update_diff_loop (structs_of es) (state_of_go st1)" and
    vals': "\<forall>e \<in> set (fst st'). no_nil_validation (snd e)"
    by blast
  have structs: "structs_of (e # es) = struct_of f # structs_of es"
    by (simp add: f(1) structs_of_def List.map_filter_simps)
  have "Update_diff_loop_go (e # es) st = Inr st'"
    using step run by (simp add: f(1))
  moreover have "state_of_go st' = Update_diff_loop (structs_of (e # es)) (state_of_go st)"
    unfolding structs same' same by simp
  ultimately show ?case using vals' by blast
qed

lemma Update_warn_go_state: "state_of_go (Update_warn_go st) = Update_warn (state_of_go st)"
  by (cases st) (simp add: state_of_go_def Update_warn_def)

lemma Update_warn_go_map: "fst (Update_warn_go st) = fst st"
  by (cases st) simp

lemma Update_diffed_go_nil_free:
  assumes "nil_free prior" "nil_free desired"
  shows "\<exists>st. Update_diffed_go prior desired = Inr st \<and>
           state_of_go st = Update_diffed (structs_of prior) (structs_of desired)"
proof -
  from Update_index_go_nil_free [OF assms(1), of "[]"] obtain m where
    index: "Update_index_go prior [] = Inr m" and
    same: "map (\<lambda>e. (fst e, struct_of (snd e))) m = Update_index (structs_of prior) []" and
    vals: "\<forall>e \<in> set m. no_nil_validation (snd e)"
    by auto
  from vals have "\<forall>e \<in> set (fst (m, [], [], [], [])). no_nil_validation (snd e)" by simp
  from Update_diff_loop_go_nil_free [OF assms(2) this] obtain st where
    loop: "Update_diff_loop_go desired (m, [], [], [], []) = Inr st" and
    same': "state_of_go st = Update_diff_loop (structs_of desired) (state_of_go (m, [], [], [], []))"
    by blast
  have "Update_diffed_go prior desired = Inr (Update_warn_go st)"
    by (simp add: Update_diffed_go_def index loop)
  moreover have "state_of_go (Update_warn_go st) = Update_diffed (structs_of prior) (structs_of desired)"
    unfolding Update_warn_go_state same' Update_diffed_def
    by (simp add: state_of_go_def same)
  ultimately show ?thesis by blast
qed

lemma Update_removed_go_eq:
  "Update_removed_go visited (m, req1, req2, recreate, logged) =
     (m, req1 @ map (\<lambda>f. Delete \<lparr>d_Key = ValueString (go_Key f)\<rparr>) visited, req2, recreate, logged)"
  by (induction visited arbitrary: req1) simp_all

lemma Update_removed_go_state:
  "state_of_go (Update_removed_go visited st) = Update_removed (map struct_of visited) (state_of_go st)"
proof (cases st)
  case (fields m req1 req2 recreate logged)
  show ?thesis
    unfolding fields Update_removed_go_eq removed_eq
    by (simp add: state_of_go_def keyOf_struct_of comp_def)
qed

lemma Update_fields_go_refines:
  assumes "nil_free prior" "nil_free desired" "Update_fields_go prior desired r"
  shows "\<exists>st. r = Inr st \<and> Update_fields (structs_of prior) (structs_of desired) (state_of_go st)"
proof -
  from Update_diffed_go_nil_free [OF assms(1,2)] obtain st where
    diffed: "Update_diffed_go prior desired = Inr st" and
    same: "state_of_go st = Update_diffed (structs_of prior) (structs_of desired)"
    by blast
  from assms(3) obtain visited where
    range: "map_range_go (fst st) visited" and r: "r = Inr (Update_removed_go visited st)"
    by (auto simp: Update_fields_go_def diffed)
  have "oldFieldDefinitionMap (state_of_go st) = map (\<lambda>e. (fst e, struct_of (snd e))) (fst st)"
    by (cases st) (simp add: state_of_go_def)
  moreover from range have "mset visited = mset (map snd (fst st))"
    by (simp only: map_range_go_def)
  then have "image_mset struct_of (mset visited) = image_mset struct_of (mset (map snd (fst st)))"
    by (rule arg_cong)
  then have "mset (map struct_of visited) = mset (map (\<lambda>e. struct_of (snd e)) (fst st))"
    by (simp add: multiset.map_comp comp_def)
  ultimately have "map_range (oldFieldDefinitionMap (state_of_go st)) (map struct_of visited)"
    by (simp add: map_range_def comp_def)
  then have "Update_fields (structs_of prior) (structs_of desired)
      (state_of_go (Update_removed_go visited st))"
    unfolding Update_fields_def Update_removed_go_state same [symmetric] by blast
  with r show ?thesis by blast
qed

section \<open>The properties of the field operations\<close>



text \<open>
  C2: the first request is what the loop over the desired snapshot appended, followed by
  the deletes of the last loop. The keys of the former follow the order of the keys in
  the desired snapshot; the latter are deletes of keys of the prior snapshot that the
  desired snapshot does not have; and the keys of the second request follow the order of
  the keys in the desired snapshot. (With unique keys a subsequence fixes the order of
  any two operations.)
\<close>

theorem batches_follow_desired_order:
  assumes "Update_fields prior desired st"
  shows "\<exists>removed.
           fieldDefinitions1stReq st = fieldDefinitions1stReq (Update_diffed prior desired) @ removed \<and>
           subseq (map op_Key (fieldDefinitions1stReq (Update_diffed prior desired))) (map keyOf desired) \<and>
           (\<forall>op \<in> set removed. op = Delete \<lparr>d_Key = op_Key op\<rparr> \<and>
               op_Key op \<in> keyOf ` set prior \<and> op_Key op \<notin> keyOf ` set desired) \<and>
           fieldDefinitions2ndReq st = fieldDefinitions2ndReq (Update_diffed prior desired) \<and>
           subseq (map op_Key (fieldDefinitions2ndReq st)) (map keyOf desired)"
proof -
  from assms obtain visited where
    v: "mset visited = mset (map snd (left_over prior desired))" and
    p: "fieldDefinitions1stReq st =
       fieldDefinitions1stReq (Update_diffed prior desired) @ map (\<lambda>p. Delete \<lparr>d_Key = keyOf p\<rparr>) visited" and
    s: "fieldDefinitions2ndReq st = fieldDefinitions2ndReq (Update_diffed prior desired)"
    by (rule Update_fieldsE)
  have keyed: "\<forall>e \<in> set (Update_index prior []). keyOf (snd e) = fst e"
    by (rule index_keyed) simp
  have one: "subseq (map op_Key (fieldDefinitions1stReq (Update_diffed prior desired))) (map keyOf desired)"
    unfolding diffed_1st using keyed by (rule emitted_1st_subseq)
  have two: "subseq (map op_Key (fieldDefinitions2ndReq st)) (map keyOf desired)"
    unfolding s diffed_2nd by (rule emitted_2nd_subseq)
  have three: "\<forall>op \<in> set (map (\<lambda>p. Delete \<lparr>d_Key = keyOf p\<rparr>) visited).
      op = Delete \<lparr>d_Key = op_Key op\<rparr> \<and>
      op_Key op \<in> keyOf ` set prior \<and> op_Key op \<notin> keyOf ` set desired"
  proof
    fix op assume "op \<in> set (map (\<lambda>p. Delete \<lparr>d_Key = keyOf p\<rparr>) visited)"
    then obtain x where x: "x \<in> set visited" "op = Delete \<lparr>d_Key = keyOf x\<rparr>" by auto
    from v have "set visited = set (map snd (left_over prior desired))" by (rule mset_eq_setD)
    with x(1) have "x \<in> snd ` set (left_over prior desired)" by simp
    then have "keyOf x \<notin> keyOf ` set desired" and "keyOf x \<in> keyOf ` set prior"
      by (simp_all add: left_over_keys)
    with x(2) show "op = Delete \<lparr>d_Key = op_Key op\<rparr> \<and>
      op_Key op \<in> keyOf ` set prior \<and> op_Key op \<notin> keyOf ` set desired" by simp
  qed
  show ?thesis
    by (rule exI [of _ "map (\<lambda>p. Delete \<lparr>d_Key = keyOf p\<rparr>) visited"]) (intro conjI p one three s two)
qed

theorem batches_follow_desired_order_witness:
  "Update_fields
     [field ''a'' ''A'' ''single_line_text_field'', field ''b'' ''B'' ''url'', field ''c'' ''C'' ''url'',
      field ''e'' ''E'' ''url'']
     [field ''d'' ''D'' ''url'', field ''a'' ''A'' ''multi_line_text_field'', field ''b'' ''B2'' ''url'']
     (final_state [(''c'', field ''c'' ''C'' ''url''), (''e'', field ''e'' ''E'' ''url'')]
        [create_of ''d'' ''D'' ''url'', delete_of ''a'', update_of ''b'' ''B2'', delete_of ''e'', delete_of ''c'']
        [create_of ''a'' ''A'' ''multi_line_text_field''] [''a''] [(Warn, '''')]) \<and>
   fieldDefinitions1stReq (Update_diffed
     [field ''a'' ''A'' ''single_line_text_field'', field ''b'' ''B'' ''url'', field ''c'' ''C'' ''url'',
      field ''e'' ''E'' ''url'']
     [field ''d'' ''D'' ''url'', field ''a'' ''A'' ''multi_line_text_field'', field ''b'' ''B2'' ''url'']) =
     [create_of ''d'' ''D'' ''url'', delete_of ''a'', update_of ''b'' ''B2''] \<and>
   subseq (map op_Key [create_of ''d'' ''D'' ''url'', delete_of ''a'', update_of ''b'' ''B2''])
     (map keyOf [field ''d'' ''D'' ''url'', field ''a'' ''A'' ''multi_line_text_field'', field ''b'' ''B2'' ''url'']) \<and>
   subseq (map op_Key [create_of ''a'' ''A'' ''multi_line_text_field''])
     (map keyOf [field ''d'' ''D'' ''url'', field ''a'' ''A'' ''multi_line_text_field'', field ''b'' ''B2'' ''url''])"
proof -
  let ?prior = "[field ''a'' ''A'' ''single_line_text_field'', field ''b'' ''B'' ''url'',
      field ''c'' ''C'' ''url'', field ''e'' ''E'' ''url'']"
  let ?desired = "[field ''d'' ''D'' ''url'', field ''a'' ''A'' ''multi_line_text_field'',
      field ''b'' ''B2'' ''url'']"
  let ?st = "final_state [(''c'', field ''c'' ''C'' ''url''), (''e'', field ''e'' ''E'' ''url'')]
        [create_of ''d'' ''D'' ''url'', delete_of ''a'', update_of ''b'' ''B2'', delete_of ''e'', delete_of ''c'']
        [create_of ''a'' ''A'' ''multi_line_text_field''] [''a''] [(Warn, '''')]"
  have diffed: "fieldDefinitions1stReq (Update_diffed ?prior ?desired) =
      [create_of ''d'' ''D'' ''url'', delete_of ''a'', update_of ''b'' ''B2'']"
    by (simp add: run_simps)
  have run: "Update_fields ?prior ?desired ?st"
    unfolding Update_fields_def
    by (rule exI [of _ "[field ''e'' ''E'' ''url'', field ''c'' ''C'' ''url'']"]) (simp add: run_simps)
  from batches_follow_desired_order [OF run] obtain removed where
    "subseq (map op_Key (fieldDefinitions1stReq (Update_diffed ?prior ?desired))) (map keyOf ?desired)"
    "subseq (map op_Key (fieldDefinitions2ndReq ?st)) (map keyOf ?desired)"
    by blast
  then have "subseq (map op_Key [create_of ''d'' ''D'' ''url'', delete_of ''a'', update_of ''b'' ''B2''])
       (map keyOf ?desired)"
    and "subseq (map op_Key [create_of ''a'' ''A'' ''multi_line_text_field'']) (map keyOf ?desired)"
    by (simp_all only: diffed final_state_def update_state.simps)
  with run diffed show ?thesis by (intro conjI)
qed

text \<open>
  C3: when the prior and the desired snapshot hold the same field definitions, in any
  order and with unique keys, both requests and the list of keys to recreate are empty.
\<close>

theorem unchanged_snapshot_emits_nothing:
  assumes "distinct (map keyOf prior)" "distinct (map keyOf desired)"
    and "set prior = set desired"
    and "Update_fields prior desired st"
  shows "fieldDefinitions1stReq st = [] \<and> fieldDefinitions2ndReq st = [] \<and>
         recreateFieldDefinitions st = []"
proof -
  from assms(4) obtain visited where
    v: "mset visited = mset (map snd (left_over prior desired))" and
    p: "fieldDefinitions1stReq st =
       fieldDefinitions1stReq (Update_diffed prior desired) @ map (\<lambda>p. Delete \<lparr>d_Key = keyOf p\<rparr>) visited" and
    s: "fieldDefinitions2ndReq st = fieldDefinitions2ndReq (Update_diffed prior desired)" and
    r: "recreateFieldDefinitions st = recreateFieldDefinitions (Update_diffed prior desired)"
    by (rule Update_fieldsE)
  have old: "map_of (Update_index prior []) (keyOf d) = Some d" if "d \<in> set desired" for d
    using that assms(1,3) by (simp add: index_lookup)
  have "fst e \<in> keyOf ` set desired" if "e \<in> set (Update_index prior [])" for e
  proof -
    from that have "fst e \<in> fst ` set (Update_index prior [])" by simp
    then show ?thesis using assms(3) by (simp add: index_keys)
  qed
  then have "left_over prior desired = []"
    by (simp add: left_over_def filter_empty_conv)
  with v have "visited = []" by simp
  then show ?thesis
    unfolding p s r diffed_1st diffed_2nd diffed_recreate
    by (simp add: lookups_distinct [OF assms(2)] comp_def old)
qed

theorem unchanged_snapshot_emits_nothing_witness:
  "distinct (map keyOf [field ''a'' ''A'' ''boolean'', field ''b'' ''B'' ''boolean'']) \<and>
   distinct (map keyOf [field ''b'' ''B'' ''boolean'', field ''a'' ''A'' ''boolean'']) \<and>
   set [field ''a'' ''A'' ''boolean'', field ''b'' ''B'' ''boolean''] =
   set [field ''b'' ''B'' ''boolean'', field ''a'' ''A'' ''boolean''] \<and>
   Update_fields [field ''a'' ''A'' ''boolean'', field ''b'' ''B'' ''boolean'']
     [field ''b'' ''B'' ''boolean'', field ''a'' ''A'' ''boolean''] (final_state [] [] [] [] []) \<and>
   fieldDefinitions1stReq (final_state [] [] [] [] []) = [] \<and>
   fieldDefinitions2ndReq (final_state [] [] [] [] []) = [] \<and>
   recreateFieldDefinitions (final_state [] [] [] [] []) = []"
proof -
  let ?a = "field ''a'' ''A'' ''boolean''"
  let ?b = "field ''b'' ''B'' ''boolean''"
  have same: "set [?a, ?b] = set [?b, ?a]" by auto
  have keys: "distinct (map keyOf [?a, ?b])" "distinct (map keyOf [?b, ?a])"
    by (simp_all add: keyOf_def field_def)
  have run: "Update_fields [?a, ?b] [?b, ?a] (final_state [] [] [] [] [])"
    unfolding Update_fields_def by (rule exI [of _ "[]"]) (simp add: run_simps)
  from unchanged_snapshot_emits_nothing [OF keys same run] keys same run
  show ?thesis by (intro conjI) simp_all
qed

text \<open>
  C4: on an empty prior snapshot the first request is one create per desired entry, in
  the order of the desired snapshot; the second request and the list of keys to recreate
  are empty. (This needs no assumption on the keys.)
\<close>

theorem create_all_when_prior_empty:
  assumes "Update_fields [] desired st"
  shows "fieldDefinitions1stReq st =
           map (\<lambda>d. Create (convertMetaobjectFieldDefinitionModelToCreateInput d)) desired \<and>
         fieldDefinitions2ndReq st = [] \<and> recreateFieldDefinitions st = []"
proof -
  from assms obtain visited where
    v: "mset visited = mset (map snd (left_over [] desired))" and
    p: "fieldDefinitions1stReq st =
       fieldDefinitions1stReq (Update_diffed [] desired) @ map (\<lambda>p. Delete \<lparr>d_Key = keyOf p\<rparr>) visited" and
    s: "fieldDefinitions2ndReq st = fieldDefinitions2ndReq (Update_diffed [] desired)" and
    r: "recreateFieldDefinitions st = recreateFieldDefinitions (Update_diffed [] desired)"
    by (rule Update_fieldsE)
  from v have "visited = []" by (simp add: left_over_def)
  moreover have "concat (map (\<lambda>(old, d). emit_1st old d) (map (\<lambda>d. (None, d)) ds)) =
      map (\<lambda>d. Create (convertMetaobjectFieldDefinitionModelToCreateInput d)) ds" for ds
    by (induction ds) simp_all
  moreover have "concat (map (\<lambda>(old, d). emit_2nd old d) (map (\<lambda>d. (None, d)) ds)) = []" for ds
    by (induction ds) simp_all
  moreover have "concat (map (\<lambda>(old, d). emit_recreate old d) (map (\<lambda>d. (None, d)) ds)) = []" for ds
    by (induction ds) simp_all
  ultimately show ?thesis
    unfolding p s r diffed_1st diffed_2nd diffed_recreate by (simp add: lookups_empty)
qed

theorem create_all_when_prior_empty_witness:
  "Update_fields [] [field ''a'' ''A'' ''boolean'', field ''b'' ''B'' ''url'']
     (final_state [] [create_of ''a'' ''A'' ''boolean'', create_of ''b'' ''B'' ''url''] [] [] []) \<and>
   [create_of ''a'' ''A'' ''boolean'', create_of ''b'' ''B'' ''url''] =
     map (\<lambda>d. Create (convertMetaobjectFieldDefinitionModelToCreateInput d))
       [field ''a'' ''A'' ''boolean'', field ''b'' ''B'' ''url'']"
proof -
  let ?st = "final_state [] [create_of ''a'' ''A'' ''boolean'', create_of ''b'' ''B'' ''url''] [] [] []"
  have run: "Update_fields [] [field ''a'' ''A'' ''boolean'', field ''b'' ''B'' ''url''] ?st"
    unfolding Update_fields_def by (rule exI [of _ "[]"]) (simp add: run_simps)
  from create_all_when_prior_empty [OF run]
  have "fieldDefinitions1stReq ?st =
     map (\<lambda>d. Create (convertMetaobjectFieldDefinitionModelToCreateInput d))
       [field ''a'' ''A'' ''boolean'', field ''b'' ''B'' ''url'']" ..
  then have "[create_of ''a'' ''A'' ''boolean'', create_of ''b'' ''B'' ''url''] =
     map (\<lambda>d. Create (convertMetaobjectFieldDefinitionModelToCreateInput d))
       [field ''a'' ''A'' ''boolean'', field ''b'' ''B'' ''url'']"
    by (simp only: final_state_def update_state.simps)
  with run show ?thesis by (intro conjI)
qed

text \<open>
  C5: on an empty desired snapshot, with unique keys in the prior snapshot, the first
  request holds exactly one delete per prior entry and nothing else, in an order the map
  iteration chooses; the second request and the list of keys to recreate are empty.
\<close>

theorem delete_all_when_desired_empty:
  assumes "distinct (map keyOf prior)" "Update_fields prior [] st"
  shows "mset (fieldDefinitions1stReq st) = mset (map (\<lambda>p. Delete \<lparr>d_Key = keyOf p\<rparr>) prior) \<and>
         fieldDefinitions2ndReq st = [] \<and> recreateFieldDefinitions st = []"
proof -
  from assms(2) obtain visited where
    v: "mset visited = mset (map snd (left_over prior []))" and
    p: "fieldDefinitions1stReq st =
       fieldDefinitions1stReq (Update_diffed prior []) @ map (\<lambda>p. Delete \<lparr>d_Key = keyOf p\<rparr>) visited" and
    s: "fieldDefinitions2ndReq st = fieldDefinitions2ndReq (Update_diffed prior [])" and
    r: "recreateFieldDefinitions st = recreateFieldDefinitions (Update_diffed prior [])"
    by (rule Update_fieldsE)
  have "map snd (left_over prior []) = prior"
    by (simp add: left_over_def index_of_distinct [OF assms(1)] comp_def)
  with v have "mset visited = mset prior" by simp
  then have "mset (map (\<lambda>p. Delete \<lparr>d_Key = keyOf p\<rparr>) visited) =
             mset (map (\<lambda>p. Delete \<lparr>d_Key = keyOf p\<rparr>) prior)"
    by (metis mset_map)
  then show ?thesis
    unfolding p s r diffed_1st diffed_2nd diffed_recreate by simp
qed

theorem delete_all_when_desired_empty_witness:
  "distinct (map keyOf [field ''a'' ''A'' ''boolean'', field ''b'' ''B'' ''url'']) \<and>
   Update_fields [field ''a'' ''A'' ''boolean'', field ''b'' ''B'' ''url''] []
     (final_state [(''a'', field ''a'' ''A'' ''boolean''), (''b'', field ''b'' ''B'' ''url'')]
        [delete_of ''b'', delete_of ''a''] [] [] []) \<and>
   mset [delete_of ''b'', delete_of ''a''] =
     mset (map (\<lambda>p. Delete \<lparr>d_Key = keyOf p\<rparr>) [field ''a'' ''A'' ''boolean'', field ''b'' ''B'' ''url''])"
proof -
  let ?a = "field ''a'' ''A'' ''boolean''"
  let ?b = "field ''b'' ''B'' ''url''"
  let ?st = "final_state [(''a'', ?a), (''b'', ?b)] [delete_of ''b'', delete_of ''a''] [] [] []"
  have keys: "distinct (map keyOf [?a, ?b])" by (simp add: keyOf_def field_def)
  have run: "Update_fields [?a, ?b] [] ?st"
    unfolding Update_fields_def by (rule exI [of _ "[?b, ?a]"]) (simp add: run_simps)
  from delete_all_when_desired_empty [OF keys run]
  have "mset (fieldDefinitions1stReq ?st) = mset (map (\<lambda>p. Delete \<lparr>d_Key = keyOf p\<rparr>) [?a, ?b])" ..
  then have "mset [delete_of ''b'', delete_of ''a''] =
      mset (map (\<lambda>p. Delete \<lparr>d_Key = keyOf p\<rparr>) [?a, ?b])"
    by (simp only: final_state_def update_state.simps)
  with keys run show ?thesis by (intro conjI)
qed

text \<open>
  C6: when the prior entry \<open>p\<close> and the desired entry \<open>d\<close> of a key \<open>k\<close> have the same
  \<open>Type\<close> and are not equal (as they are not when they differ in name, description,
  required or validations; keys unique in each snapshot), the first request holds exactly
  one operation on \<open>k\<close>, the update of \<open>k\<close> to the attributes of \<open>d\<close>, and the second
  request holds no operation on \<open>k\<close>.
\<close>

theorem attribute_change_updates:
  assumes "distinct (map keyOf prior)" "distinct (map keyOf desired)"
    and "p \<in> set prior" "d \<in> set desired" "keyOf p = k" "keyOf d = k"
    and "Type p = Type d" "p \<noteq> d"
    and "Update_fields prior desired st"
  shows "filter (\<lambda>op. op_Key op = k) (fieldDefinitions1stReq st) =
           [Update \<lparr>u_Key = k,
                    u_Name = ValueStringPointer (Name d),
                    u_Description = ValueStringPointer (Description d),
                    u_Required = ValueBool (Required d),
                    u_Validations = convertValidationModelsToValidations (Validations d)\<rparr>] \<and>
         filter (\<lambda>op. op_Key op = k) (fieldDefinitions2ndReq st) = []"
proof -
  have old: "map_of (Update_index prior []) (keyOf d) = Some p"
    using index_lookup [OF assms(1,3)] assms(5,6) by simp
  have "filter (\<lambda>op. op_Key op = keyOf d) (fieldDefinitions1stReq st) =
      [Update \<lparr>u_Key = k,
                    u_Name = ValueStringPointer (Name d),
                    u_Description = ValueStringPointer (Description d),
                    u_Required = ValueBool (Required d),
                    u_Validations = convertValidationModelsToValidations (Validations d)\<rparr>]"
    unfolding on_key_1st [OF assms(2,4,9)] old using assms(6,7,8) by simp
  moreover have "filter (\<lambda>op. op_Key op = keyOf d) (fieldDefinitions2ndReq st) = []"
    unfolding on_key_2nd [OF assms(2,4,9)] old using assms(7) by simp
  ultimately show ?thesis using assms(6) by simp
qed

theorem attribute_change_updates_witness:
  "distinct (map keyOf [field ''a'' ''Old'' ''single_line_text_field'']) \<and>
   distinct (map keyOf [field ''a'' ''New'' ''single_line_text_field'']) \<and>
   Type (field ''a'' ''Old'' ''single_line_text_field'') = Type (field ''a'' ''New'' ''single_line_text_field'') \<and>
   field ''a'' ''Old'' ''single_line_text_field'' \<noteq> field ''a'' ''New'' ''single_line_text_field'' \<and>
   Update_fields [field ''a'' ''Old'' ''single_line_text_field''] [field ''a'' ''New'' ''single_line_text_field'']
     (final_state [] [update_of ''a'' ''New''] [] [] []) \<and>
   filter (\<lambda>op. op_Key op = ''a'') [update_of ''a'' ''New''] = [update_of ''a'' ''New''] \<and>
   filter (\<lambda>op. op_Key op = ''a'') ([] :: MetaobjectFieldDefinitionOperationInput list) = []"
proof -
  let ?p = "field ''a'' ''Old'' ''single_line_text_field''"
  let ?d = "field ''a'' ''New'' ''single_line_text_field''"
  let ?st = "final_state [] [update_of ''a'' ''New''] [] [] []"
  have keys: "distinct (map keyOf [?p])" "distinct (map keyOf [?d])" by simp_all
  have attrs: "Type ?p = Type ?d" "?p \<noteq> ?d" by (simp_all add: field_def)
  have run: "Update_fields [?p] [?d] ?st"
    unfolding Update_fields_def by (rule exI [of _ "[]"]) (simp add: run_simps)
  from attribute_change_updates [of "[?p]" "[?d]" ?p ?d "''a''" ?st, OF keys _ _ _ _ attrs run]
  have "filter (\<lambda>op. op_Key op = ''a'') (fieldDefinitions1stReq ?st) = [update_of ''a'' ''New''] \<and>
        filter (\<lambda>op. op_Key op = ''a'') (fieldDefinitions2ndReq ?st) = []"
    by (simp add: keyOf_def field_def update_of_def convertValidationModelsToValidations_def)
  then have "filter (\<lambda>op. op_Key op = ''a'') [update_of ''a'' ''New''] = [update_of ''a'' ''New''] \<and>
        filter (\<lambda>op. op_Key op = ''a'') ([] :: MetaobjectFieldDefinitionOperationInput list) = []"
    by (simp only: final_state_def update_state.simps)
  with keys attrs run show ?thesis by (intro conjI) simp_all
qed




text \<open>
  C8: with unique keys in the planned field definitions, the list rebuilt from the remote
  definition holds the remote field definitions, one model per remote entry, and runs in
  the order of the planned field definitions: of two models whose keys are planned, the
  one placed first has the key planned first (or the same key).
\<close>

theorem refreshed_fields_follow_desired_order:
  assumes "distinct (map keyOf fieldDefinitions)"
    and "sorted_fieldDefinitions FindBy definitions fieldDefinitions fieldDefinitionModels"
  shows "mset fieldDefinitionModels = mset (convert_fieldDefinitions FindBy definitions fieldDefinitions) \<and>
         mset (map keyOf fieldDefinitionModels) = mset (map r_Key definitions) \<and>
         (\<forall>i j a b. i < j \<and> j < length fieldDefinitionModels \<and>
            a < length fieldDefinitions \<and> b < length fieldDefinitions \<and>
            keyOf (fieldDefinitionModels ! i) = keyOf (fieldDefinitions ! a) \<and>
            keyOf (fieldDefinitionModels ! j) = keyOf (fieldDefinitions ! b) \<longrightarrow> a \<le> b)"
proof -
  from assms(2) have
    perm: "mset fieldDefinitionModels = mset (convert_fieldDefinitions FindBy definitions fieldDefinitions)" and
    sorted: "sorted_wrt (\<lambda>x y. \<not> order_less fieldDefinitions y x) fieldDefinitionModels"
    by (simp_all add: sorted_fieldDefinitions_def sort_Slice_def)
  from perm have "mset (map keyOf fieldDefinitionModels) =
      mset (map keyOf (convert_fieldDefinitions FindBy definitions fieldDefinitions))"
    by (metis mset_map)
  then have keys: "mset (map keyOf fieldDefinitionModels) = mset (map r_Key definitions)"
    by (simp only: convert_keys)
  have order: "a \<le> b"
    if "i < j" "j < length fieldDefinitionModels"
      "a < length fieldDefinitions" "b < length fieldDefinitions"
      "keyOf (fieldDefinitionModels ! i) = keyOf (fieldDefinitions ! a)"
      "keyOf (fieldDefinitionModels ! j) = keyOf (fieldDefinitions ! b)" for i j a b
  proof -
    from sorted that(1,2)
    have "\<not> order_less fieldDefinitions (fieldDefinitionModels ! j) (fieldDefinitionModels ! i)"
      by (rule sorted_wrt_nth_less)
    then show ?thesis
      using that(3-6) assms(1) by (simp add: order_less_def order_at_nth)
  qed
  from perm keys order show ?thesis by blast
qed

theorem refreshed_fields_follow_desired_order_witness:
  "distinct (map keyOf [field ''a'' ''A'' ''url'', field ''b'' ''B'' ''url'', field ''c'' ''C'' ''url'']) \<and>
   sorted_fieldDefinitions (\<lambda>xs P. find P xs)
     [remote_field ''c'' ''C'' ''url'', remote_field ''a'' ''A'' ''url'', remote_field ''b'' ''B'' ''url'']
     [field ''a'' ''A'' ''url'', field ''b'' ''B'' ''url'', field ''c'' ''C'' ''url'']
     [field ''a'' ''A'' ''url'', field ''b'' ''B'' ''url'', field ''c'' ''C'' ''url''] \<and>
   mset (map keyOf [field ''a'' ''A'' ''url'', field ''b'' ''B'' ''url'', field ''c'' ''C'' ''url'']) =
     mset (map r_Key
       [remote_field ''c'' ''C'' ''url'', remote_field ''a'' ''A'' ''url'', remote_field ''b'' ''B'' ''url'']) \<and>
   \<not> sorted_fieldDefinitions (\<lambda>xs P. find P xs)
     [remote_field ''c'' ''C'' ''url'', remote_field ''a'' ''A'' ''url'', remote_field ''b'' ''B'' ''url'']
     [field ''a'' ''A'' ''url'', field ''b'' ''B'' ''url'', field ''c'' ''C'' ''url'']
     [field ''c'' ''C'' ''url'', field ''a'' ''A'' ''url'', field ''b'' ''B'' ''url'']"
proof -
  let ?remote = "[remote_field ''c'' ''C'' ''url'', remote_field ''a'' ''A'' ''url'',
     remote_field ''b'' ''B'' ''url'']"
  let ?planned = "[field ''a'' ''A'' ''url'', field ''b'' ''B'' ''url'', field ''c'' ''C'' ''url'']"
  let ?unsorted = "[field ''c'' ''C'' ''url'', field ''a'' ''A'' ''url'', field ''b'' ''B'' ''url'']"
  have keys: "distinct (map keyOf ?planned)" by (simp add: keyOf_def field_def)
  have run: "sorted_fieldDefinitions (\<lambda>xs P. find P xs) ?remote ?planned ?planned"
    by (simp add: sorted_fieldDefinitions_def sort_Slice_def convert_fieldDefinitions_def
        convertMetaobjectFieldDefinitionToModel_def convertValidationsToModels_def order_less_def
        order_at_def keyOf_def field_def remote_field_def)
  from refreshed_fields_follow_desired_order [OF keys run]
  have same: "mset (map keyOf ?planned) = mset (map r_Key ?remote)" by blast
  have wrong: "\<not> sorted_fieldDefinitions (\<lambda>xs P. find P xs) ?remote ?planned ?unsorted"
  proof
    assume "sorted_fieldDefinitions (\<lambda>xs P. find P xs) ?remote ?planned ?unsorted"
    from refreshed_fields_follow_desired_order [OF keys this]
    have "\<forall>i j a b. i < j \<and> j < length ?unsorted \<and> a < length ?planned \<and> b < length ?planned \<and>
            keyOf (?unsorted ! i) = keyOf (?planned ! a) \<and>
            keyOf (?unsorted ! j) = keyOf (?planned ! b) \<longrightarrow> a \<le> b" by blast
    then have "0 < (1::nat) \<and> 1 < length ?unsorted \<and> 2 < length ?planned \<and> 0 < length ?planned \<and>
            keyOf (?unsorted ! 0) = keyOf (?planned ! 2) \<and>
            keyOf (?unsorted ! 1) = keyOf (?planned ! 0) \<longrightarrow> (2::nat) \<le> 0"
      by blast
    then show False by (simp add: keyOf_def field_def)
  qed
  from keys run same wrong show ?thesis by (intro conjI)
qed

text \<open>
  C9: when the list of keys to recreate is not empty, the field operations log exactly
  one entry, a warning, and its message is the empty string: the keys are not in it.
\<close>

theorem recreate_warning_has_empty_message:
  assumes "Update_fields prior desired st" "recreateFieldDefinitions st \<noteq> []"
  shows "tflog st = [(Warn, '''')]"
proof -
  from assms(1) obtain visited where
    "recreateFieldDefinitions st = recreateFieldDefinitions (Update_diffed prior desired)"
    "tflog st = tflog (Update_diffed prior desired)"
    by (rule Update_fieldsE)
  with assms(2) show ?thesis by (simp add: diffed_tflog)
qed

theorem recreate_warning_has_empty_message_witness:
  "Update_fields [field ''x'' ''X'' ''number_integer''] [field ''x'' ''X'' ''number_decimal'']
     (final_state [] [delete_of ''x''] [create_of ''x'' ''X'' ''number_decimal''] [''x''] [(Warn, '''')]) \<and>
   recreateFieldDefinitions
     (final_state [] [delete_of ''x''] [create_of ''x'' ''X'' ''number_decimal''] [''x''] [(Warn, '''')]) \<noteq> [] \<and>
   tflog (final_state [] [delete_of ''x''] [create_of ''x'' ''X'' ''number_decimal''] [''x''] [(Warn, '''')]) =
     [(Warn, '''')]"
proof -
  let ?st = "final_state [] [delete_of ''x''] [create_of ''x'' ''X'' ''number_decimal''] [''x''] [(Warn, '''')]"
  have run: "Update_fields [field ''x'' ''X'' ''number_integer''] [field ''x'' ''X'' ''number_decimal''] ?st"
    unfolding Update_fields_def by (rule exI [of _ "[]"]) (simp add: run_simps)
  have some: "recreateFieldDefinitions ?st \<noteq> []" by (simp add: final_state_def)
  from recreate_warning_has_empty_message [OF run some] run some show ?thesis by (intro conjI)
qed

text \<open>
  C10: the second request holds creates only, it is as long as the list of keys to
  recreate, and the key of its create at an index is the key at that index of the list.
\<close>

theorem secondary_pairs_with_recreate:
  assumes "Update_fields prior desired st"
  shows "length (fieldDefinitions2ndReq st) = length (recreateFieldDefinitions st) \<and>
         (\<forall>i < length (fieldDefinitions2ndReq st).
            \<exists>c. fieldDefinitions2ndReq st ! i = Create c \<and> c_Key c = recreateFieldDefinitions st ! i)"
proof -
  from assms obtain visited where
    s: "fieldDefinitions2ndReq st = fieldDefinitions2ndReq (Update_diffed prior desired)" and
    r: "recreateFieldDefinitions st = recreateFieldDefinitions (Update_diffed prior desired)"
    by (rule Update_fieldsE)
  have "list_all2 (\<lambda>op k. \<exists>c. op = Create c \<and> c_Key c = k)
          (fieldDefinitions2ndReq st) (recreateFieldDefinitions st)"
    unfolding s r diffed_2nd diffed_recreate by (rule emit_pairs)
  then show ?thesis by (simp add: list_all2_conv_all_nth)
qed

theorem secondary_pairs_with_recreate_witness:
  "Update_fields [field ''a'' ''A'' ''boolean'', field ''b'' ''B'' ''boolean'']
     [field ''b'' ''B'' ''url'', field ''a'' ''A'' ''url'']
     (final_state [] [delete_of ''b'', delete_of ''a''] [create_of ''b'' ''B'' ''url'', create_of ''a'' ''A'' ''url'']
        [''b'', ''a''] [(Warn, '''')]) \<and>
   length [create_of ''b'' ''B'' ''url'', create_of ''a'' ''A'' ''url''] = length [''b'', ''a''] \<and>
   (\<exists>c. [create_of ''b'' ''B'' ''url'', create_of ''a'' ''A'' ''url''] ! 1 = Create c \<and>
        c_Key c = [''b'', ''a''] ! 1)"
proof -
  let ?st = "final_state [] [delete_of ''b'', delete_of ''a'']
     [create_of ''b'' ''B'' ''url'', create_of ''a'' ''A'' ''url''] [''b'', ''a''] [(Warn, '''')]"
  have run: "Update_fields [field ''a'' ''A'' ''boolean'', field ''b'' ''B'' ''boolean'']
     [field ''b'' ''B'' ''url'', field ''a'' ''A'' ''url''] ?st"
    unfolding Update_fields_def by (rule exI [of _ "[]"]) (simp add: run_simps)
  from secondary_pairs_with_recreate [OF run]
  have len: "length (fieldDefinitions2ndReq ?st) = length (recreateFieldDefinitions ?st)"
    and nth: "\<forall>i < length (fieldDefinitions2ndReq ?st).
            \<exists>c. fieldDefinitions2ndReq ?st ! i = Create c \<and> c_Key c = recreateFieldDefinitions ?st ! i"
    by blast+
  have "1 < length (fieldDefinitions2ndReq ?st)" by (simp add: final_state_def)
  with nth have "\<exists>c. fieldDefinitions2ndReq ?st ! 1 = Create c \<and> c_Key c = recreateFieldDefinitions ?st ! 1"
    by blast
  with len have "length [create_of ''b'' ''B'' ''url'', create_of ''a'' ''A'' ''url''] = length [''b'', ''a''] \<and>
   (\<exists>c. [create_of ''b'' ''B'' ''url'', create_of ''a'' ''A'' ''url''] ! 1 = Create c \<and>
        c_Key c = [''b'', ''a''] ! 1)"
    by (simp only: final_state_def update_state.simps)
  with run show ?thesis by (intro conjI) simp_all
qed

end
